theory Spec2Isabelle
  imports Main
begin

section \<open>Data model (types.ts)\<close>

datatype CellType = Empty | Wall | Start | Goal | Portal

datatype PortalColor = Blue | Red | Green | Yellow

text \<open>
  A \<open>Cell\<close> carries its own coordinates; the solver reads \<open>cell.x\<close> and \<open>cell.y\<close>
  (not the indices under which the cell is stored) when it looks for the endpoints and
  the portals. The optional \<open>portalColor\<close> is an \<open>option\<close>.
\<close>

record Cell =
  cell_x :: int
  cell_y :: int
  cell_type :: CellType
  portalColor :: "PortalColor option"
  cell_id :: string

type_synonym Grid = "Cell list list"

type_synonym Pos = "int \<times> int"

record PathNode =
  node_x :: int
  node_y :: int
  breaksUsed :: int
  steps :: int
  path :: "Pos list"

text \<open>
  Reading a property of \<open>undefined\<close> throws a \<open>TypeError\<close> in JavaScript; this is the
  only exception the solver can raise.
\<close>

datatype error = TypeError

section \<open>The solver (utils/pathfinding.ts)\<close>

definition DIRECTIONS :: "(int \<times> int) list" where
  "DIRECTIONS = [(0, -1), (1, 0), (0, 1), (-1, 0)]"

type_synonym Portals = "PortalColor \<rightharpoonup> Pos list"

definition add_portal :: "Cell \<Rightarrow> Portals \<Rightarrow> Portals" where
  "add_portal cell portals =
     (if cell_type cell = Portal then
        (case portalColor cell of
           None \<Rightarrow> portals
         | Some c \<Rightarrow>
             portals(c \<mapsto> (case portals c of None \<Rightarrow> [] | Some ps \<Rightarrow> ps) @ [(cell_x cell, cell_y cell)]))
      else portals)"

definition findPortals :: "Grid \<Rightarrow> Portals" where
  "findPortals grid = fold (\<lambda>row portals. fold add_portal row portals) grid Map.empty"

definition scan_endpoint :: "Cell \<Rightarrow> Pos option \<times> Pos option \<Rightarrow> Pos option \<times> Pos option" where
  "scan_endpoint cell se =
     (let start = (if cell_type cell = Start then Some (cell_x cell, cell_y cell) else fst se);
          goal = (if cell_type cell = Goal then Some (cell_x cell, cell_y cell) else snd se)
      in (start, goal))"

definition findEndpoints :: "Grid \<Rightarrow> Pos option \<times> Pos option" where
  "findEndpoints grid = fold (\<lambda>row se. fold scan_endpoint row se) grid (None, None)"

text \<open>
  \<open>grid[y][x]\<close>: outside the array the read yields \<open>undefined\<close>, and the property access that
  follows throws. \<open>None\<close> stands for \<open>undefined\<close>.
\<close>

definition cell_at :: "Grid \<Rightarrow> int \<Rightarrow> int \<Rightarrow> Cell option" where
  "cell_at grid x y =
     (if 0 \<le> y \<and> y < int (length grid) then
        (let row = grid ! nat y in
         if 0 \<le> x \<and> x < int (length row) then Some (row ! nat x) else None)
      else None)"

text \<open>
  The visited set holds the strings \<open>`${x},${y},${breaks}`\<close>; for integers this rendering
  is injective, so a key is the triple itself.
\<close>

type_synonym VisitKey = "int \<times> int \<times> int"

type_synonym Frontier = "VisitKey set \<times> PathNode list"

definition visitKey :: "PathNode \<Rightarrow> VisitKey" where
  "visitKey n = (node_x n, node_y n, breaksUsed n)"

text \<open>The guarded \<open>visited.add(visitKey); queue.push(node)\<close> shared by both successor kinds.\<close>

definition push_if_new :: "PathNode \<Rightarrow> Frontier \<Rightarrow> Frontier" where
  "push_if_new n vq =
     (if visitKey n \<in> fst vq then vq
      else (insert (visitKey n) (fst vq), snd vq @ [n]))"

definition teleport :: "PathNode \<Rightarrow> Pos \<Rightarrow> Frontier \<Rightarrow> Frontier" where
  "teleport current dest vq =
     (if fst dest = node_x current \<and> snd dest = node_y current then vq
      else push_if_new
             \<lparr>node_x = fst dest, node_y = snd dest, breaksUsed = breaksUsed current,
              steps = steps current + 1, path = path current @ [(fst dest, snd dest)]\<rparr> vq)"

definition try_teleport :: "Portals \<Rightarrow> Cell \<Rightarrow> PathNode \<Rightarrow> Frontier \<Rightarrow> Frontier" where
  "try_teleport portals currentCell current vq =
     (if cell_type currentCell = Portal then
        (case portalColor currentCell of
           None \<Rightarrow> vq
         | Some c \<Rightarrow>
             (case portals c of
                None \<Rightarrow> vq
              | Some pair \<Rightarrow> if length pair > 1 then fold (teleport current) pair vq else vq))
      else vq)"

definition try_move ::
  "Grid \<Rightarrow> int \<Rightarrow> int \<Rightarrow> int \<Rightarrow> PathNode \<Rightarrow> int \<times> int \<Rightarrow> Frontier \<Rightarrow> error + Frontier" where
  "try_move grid rows cols maxBreaksAllowed current dir vq =
     (let nx = node_x current + fst dir; ny = node_y current + snd dir in
      if nx \<ge> 0 \<and> nx < cols \<and> ny \<ge> 0 \<and> ny < rows then
        (case cell_at grid nx ny of
           None \<Rightarrow> Inl TypeError
         | Some neighbor \<Rightarrow>
             (let isWall = (cell_type neighbor = Wall);
                  newBreaks = (if isWall then breaksUsed current + 1 else breaksUsed current)
              in if newBreaks \<le> maxBreaksAllowed then
                   Inr (push_if_new
                          \<lparr>node_x = nx, node_y = ny, breaksUsed = newBreaks,
                           steps = steps current + 1, path = path current @ [(nx, ny)]\<rparr> vq)
                 else Inr vq))
      else Inr vq)"

fun try_moves ::
  "Grid \<Rightarrow> int \<Rightarrow> int \<Rightarrow> int \<Rightarrow> PathNode \<Rightarrow> (int \<times> int) list \<Rightarrow> Frontier \<Rightarrow> error + Frontier" where
  "try_moves grid rows cols maxBreaksAllowed current [] vq = Inr vq"
| "try_moves grid rows cols maxBreaksAllowed current (dir # dirs) vq =
     (case try_move grid rows cols maxBreaksAllowed current dir vq of
        Inl e \<Rightarrow> Inl e
      | Inr vq' \<Rightarrow> try_moves grid rows cols maxBreaksAllowed current dirs vq')"

text \<open>One iteration of the loop body after the goal test: teleports first, then the moves.\<close>

definition expand ::
  "Grid \<Rightarrow> int \<Rightarrow> int \<Rightarrow> int \<Rightarrow> Portals \<Rightarrow> Cell \<Rightarrow> PathNode \<Rightarrow> Frontier \<Rightarrow> error + Frontier" where
  "expand grid rows cols maxBreaksAllowed portals currentCell current vq =
     try_moves grid rows cols maxBreaksAllowed current DIRECTIONS
       (try_teleport portals currentCell current vq)"

text \<open>
  The visited set and the queue as the loop body leaves them, also when it throws. A move
  throws at the read of \<open>neighbor.type\<close>, before it pushes anything, so a throwing body
  leaves behind what the teleports and the moves before that one have pushed. When the body
  does not throw this is the frontier \<open>expand\<close> returns.
\<close>

fun moves_frontier ::
  "Grid \<Rightarrow> int \<Rightarrow> int \<Rightarrow> int \<Rightarrow> PathNode \<Rightarrow> (int \<times> int) list \<Rightarrow> Frontier \<Rightarrow> Frontier" where
  "moves_frontier grid rows cols maxBreaksAllowed current [] vq = vq"
| "moves_frontier grid rows cols maxBreaksAllowed current (dir # dirs) vq =
     (case try_move grid rows cols maxBreaksAllowed current dir vq of
        Inl e \<Rightarrow> vq
      | Inr vq' \<Rightarrow> moves_frontier grid rows cols maxBreaksAllowed current dirs vq')"

definition expand_frontier ::
  "Grid \<Rightarrow> int \<Rightarrow> int \<Rightarrow> int \<Rightarrow> Portals \<Rightarrow> Cell \<Rightarrow> PathNode \<Rightarrow> Frontier \<Rightarrow> Frontier" where
  "expand_frontier grid rows cols maxBreaksAllowed portals currentCell current vq =
     moves_frontier grid rows cols maxBreaksAllowed current DIRECTIONS
       (try_teleport portals currentCell current vq)"

function bfs ::
  "Grid \<Rightarrow> int \<Rightarrow> int \<Rightarrow> int \<Rightarrow> Pos \<Rightarrow> Portals \<Rightarrow> VisitKey set \<Rightarrow> PathNode list \<Rightarrow>
   error + (int \<times> Pos list) option" where
  "bfs grid rows cols maxBreaksAllowed goal portals visited [] = Inr None"
| "bfs grid rows cols maxBreaksAllowed goal portals visited (current # queue) =
     (if node_x current = fst goal \<and> node_y current = snd goal then
        Inr (Some (steps current, path current))
      else
        (case cell_at grid (node_x current) (node_y current) of
           None \<Rightarrow> Inl TypeError
         | Some currentCell \<Rightarrow>
             (case expand grid rows cols maxBreaksAllowed portals currentCell current (visited, queue) of
                Inl e \<Rightarrow> Inl e
              | Inr (visited', queue') \<Rightarrow>
                  bfs grid rows cols maxBreaksAllowed goal portals visited' queue')))"
  by pat_completeness auto

text \<open>
  \<open>solveMaze\<close>: \<open>null\<close> is \<open>Inr None\<close>, a result \<open>{steps, path}\<close> is
  \<open>Inr (Some (steps, path))\<close>. \<open>grid[0].length\<close> throws on an empty grid, which cannot
  happen once both endpoints have been found.
\<close>

definition solveMaze :: "Grid \<Rightarrow> int \<Rightarrow> error + (int \<times> Pos list) option" where
  "solveMaze grid maxBreaksAllowed =
     (case findEndpoints grid of
        (Some start, Some goal) \<Rightarrow>
          (case grid of
             [] \<Rightarrow> Inl TypeError
           | row0 # _ \<Rightarrow>
               bfs grid (int (length grid)) (int (length row0)) maxBreaksAllowed goal (findPortals grid)
                 {(fst start, snd start, 0)}
                 [\<lparr>node_x = fst start, node_y = snd start, breaksUsed = 0, steps = 0,
                   path = [(fst start, snd start)]\<rparr>])
      | _ \<Rightarrow> Inr None)"

text \<open>
  The nodes pushed onto the queue during a run, in push order: the same recursion as
  \<open>bfs\<close>, collecting what each iteration appends to the queue. An iteration that throws
  at the read of \<open>currentCell.type\<close> has pushed nothing; one that throws in a move
  contributes what it pushed before the throw, and the run ends there. It observes the run
  and takes no part in the result.
\<close>

function bfs_enqueued ::
  "Grid \<Rightarrow> int \<Rightarrow> int \<Rightarrow> int \<Rightarrow> Pos \<Rightarrow> Portals \<Rightarrow> VisitKey set \<Rightarrow> PathNode list \<Rightarrow>
   PathNode list" where
  "bfs_enqueued grid rows cols maxBreaksAllowed goal portals visited [] = []"
| "bfs_enqueued grid rows cols maxBreaksAllowed goal portals visited (current # queue) =
     (if node_x current = fst goal \<and> node_y current = snd goal then []
      else
        (case cell_at grid (node_x current) (node_y current) of
           None \<Rightarrow> []
         | Some currentCell \<Rightarrow>
             (case expand grid rows cols maxBreaksAllowed portals currentCell current (visited, queue) of
                Inl e \<Rightarrow>
                  drop (length queue)
                    (snd (expand_frontier grid rows cols maxBreaksAllowed portals currentCell current
                            (visited, queue)))
              | Inr (visited', queue') \<Rightarrow>
                  drop (length queue) queue' @
                  bfs_enqueued grid rows cols maxBreaksAllowed goal portals visited' queue')))"
  by pat_completeness auto

definition solveMaze_enqueued :: "Grid \<Rightarrow> int \<Rightarrow> PathNode list" where
  "solveMaze_enqueued grid maxBreaksAllowed =
     (case findEndpoints grid of
        (Some start, Some goal) \<Rightarrow>
          (case grid of
             [] \<Rightarrow> []
           | row0 # _ \<Rightarrow>
               \<lparr>node_x = fst start, node_y = snd start, breaksUsed = 0, steps = 0,
                 path = [(fst start, snd start)]\<rparr> #
               bfs_enqueued grid (int (length grid)) (int (length row0)) maxBreaksAllowed goal
                 (findPortals grid) {(fst start, snd start, 0)}
                 [\<lparr>node_x = fst start, node_y = snd start, breaksUsed = 0, steps = 0,
                   path = [(fst start, snd start)]\<rparr>])
      | _ \<Rightarrow> [])"

text \<open>The two fields of the solver's contract, read off the returned value.\<close>

definition reachable :: "error + (int \<times> Pos list) option \<Rightarrow> bool" where
  "reachable r = (case r of Inr (Some _) \<Rightarrow> True | _ \<Rightarrow> False)"

definition minimumActions :: "error + (int \<times> Pos list) option \<Rightarrow> int option" where
  "minimumActions r = (case r of Inr (Some (s, _)) \<Rightarrow> Some s | _ \<Rightarrow> None)"

text \<open>
  Where several shortest paths exist, the one returned depends on the order in which the
  loop body pushes the successors of a node: the order of each colour's portal list and the
  order of \<open>DIRECTIONS\<close>. The search below is \<open>solveMaze\<close> with these two orders as
  parameters: \<open>dirs\<close> is iterated in place of \<open>DIRECTIONS\<close>, and \<open>order\<close> is applied to
  each portal list that \<open>findPortals\<close> has built. With \<open>DIRECTIONS\<close> and the identity it is
  \<open>solveMaze\<close> itself.
\<close>

definition expand_with ::
  "(int \<times> int) list \<Rightarrow> Grid \<Rightarrow> int \<Rightarrow> int \<Rightarrow> int \<Rightarrow> Portals \<Rightarrow> Cell \<Rightarrow> PathNode \<Rightarrow> Frontier \<Rightarrow>
   error + Frontier" where
  "expand_with dirs grid rows cols maxBreaksAllowed portals currentCell current vq =
     try_moves grid rows cols maxBreaksAllowed current dirs
       (try_teleport portals currentCell current vq)"

function bfs_with ::
  "(int \<times> int) list \<Rightarrow> Grid \<Rightarrow> int \<Rightarrow> int \<Rightarrow> int \<Rightarrow> Pos \<Rightarrow> Portals \<Rightarrow> VisitKey set \<Rightarrow>
   PathNode list \<Rightarrow> error + (int \<times> Pos list) option" where
  "bfs_with dirs grid rows cols maxBreaksAllowed goal portals visited [] = Inr None"
| "bfs_with dirs grid rows cols maxBreaksAllowed goal portals visited (current # queue) =
     (if node_x current = fst goal \<and> node_y current = snd goal then
        Inr (Some (steps current, path current))
      else
        (case cell_at grid (node_x current) (node_y current) of
           None \<Rightarrow> Inl TypeError
         | Some currentCell \<Rightarrow>
             (case expand_with dirs grid rows cols maxBreaksAllowed portals currentCell current
                     (visited, queue) of
                Inl e \<Rightarrow> Inl e
              | Inr (visited', queue') \<Rightarrow>
                  bfs_with dirs grid rows cols maxBreaksAllowed goal portals visited' queue')))"
  by pat_completeness auto

definition findPortals_with :: "(Pos list \<Rightarrow> Pos list) \<Rightarrow> Grid \<Rightarrow> Portals" where
  "findPortals_with order grid = (\<lambda>c. map_option order (findPortals grid c))"

definition solveMaze_with ::
  "(int \<times> int) list \<Rightarrow> (Pos list \<Rightarrow> Pos list) \<Rightarrow> Grid \<Rightarrow> int \<Rightarrow> error + (int \<times> Pos list) option" where
  "solveMaze_with dirs order grid maxBreaksAllowed =
     (case findEndpoints grid of
        (Some start, Some goal) \<Rightarrow>
          (case grid of
             [] \<Rightarrow> Inl TypeError
           | row0 # _ \<Rightarrow>
               bfs_with dirs grid (int (length grid)) (int (length row0)) maxBreaksAllowed goal
                 (findPortals_with order grid)
                 {(fst start, snd start, 0)}
                 [\<lparr>node_x = fst start, node_y = snd start, breaksUsed = 0, steps = 0,
                   path = [(fst start, snd start)]\<rparr>])
      | _ \<Rightarrow> Inr None)"

section \<open>The level generator (utils/mazeGenerator.ts, constants.ts)\<close>

definition GRID_SIZE :: int where
  "GRID_SIZE = 10"

record Level =
  level_id :: string
  level_name :: string
  level_grid :: Grid
  level_maxBreaks :: int
  optimalStepsNoBreak :: "int option"
  optimalStepsWithBreak :: "int option"
  createdAt :: int

text \<open>
  The generator draws from \<open>Math.random()\<close>, from the clock and, through
  \<open>empties.sort(() => Math.random() - 0.5)\<close>, from the engine's sort. One attempt's draws
  are an explicit argument:
  \<^item> \<open>cell_ids\<close>, \<open>fresh_id\<close>: the strings returned by \<open>generateId()\<close>;
  \<^item> \<open>carve_pick i\<close>: the \<open>i\<close>-th carving choice; \<open>Math.floor(Math.random() * n)\<close> is
    some index below \<open>n\<close>, obtained here as \<open>carve_pick i mod n\<close>, which ranges over
    exactly these indices;
  \<^item> \<open>shuffle\<close>: the list left by the randomised sort;
  \<^item> \<open>punch x y\<close>: whether \<open>Math.random() < 0.1\<close> held at the wall cell \<open>(x, y)\<close>;
  \<^item> \<open>sector\<close>: the digits of \<open>Math.floor(Math.random() * 900) + 100\<close>;
  \<^item> \<open>clock\<close>: \<open>Date.now()\<close>.
  The generator takes one such record per attempt.
\<close>

record Randomness =
  cell_ids :: "int \<Rightarrow> int \<Rightarrow> string"
  carve_pick :: "nat \<Rightarrow> nat"
  shuffle :: "Pos list \<Rightarrow> Pos list"
  punch :: "int \<Rightarrow> int \<Rightarrow> bool"
  fresh_id :: string
  sector :: string
  clock :: int

text \<open>
  The generator's own \<open>DIRECTIONS\<close> (two cells apart), renamed apart from the solver's.
\<close>

definition CARVE_DIRECTIONS :: "(int \<times> int) list" where
  "CARVE_DIRECTIONS = [(0, -2), (0, 2), (-2, 0), (2, 0)]"

text \<open>
  \<open>grid[y][x].type = t\<close> and \<open>grid[y][x].portalColor = c\<close>: a write through a cell that
  does not exist throws.
\<close>

definition update_cell :: "Grid \<Rightarrow> int \<Rightarrow> int \<Rightarrow> (Cell \<Rightarrow> Cell) \<Rightarrow> error + Grid" where
  "update_cell grid x y f =
     (case cell_at grid x y of
        None \<Rightarrow> Inl TypeError
      | Some c \<Rightarrow> Inr (grid[nat y := (grid ! nat y)[nat x := f c]]))"

definition set_type :: "Grid \<Rightarrow> int \<Rightarrow> int \<Rightarrow> CellType \<Rightarrow> error + Grid" where
  "set_type grid x y t = update_cell grid x y (\<lambda>c. c\<lparr>cell_type := t\<rparr>)"

definition set_portalColor :: "Grid \<Rightarrow> int \<Rightarrow> int \<Rightarrow> PortalColor \<Rightarrow> error + Grid" where
  "set_portalColor grid x y col = update_cell grid x y (\<lambda>c. c\<lparr>portalColor := Some col\<rparr>)"

text \<open>
  Sequencing of steps that may throw, and a loop whose body may throw.
\<close>

definition and_then :: "error + 'a \<Rightarrow> ('a \<Rightarrow> error + 'b) \<Rightarrow> error + 'b" where
  "and_then m f = (case m of Inl e \<Rightarrow> Inl e | Inr a \<Rightarrow> f a)"

fun for_each :: "('a \<Rightarrow> 's \<Rightarrow> error + 's) \<Rightarrow> 'a list \<Rightarrow> 's \<Rightarrow> error + 's" where
  "for_each body [] s = Inr s"
| "for_each body (a # as) s =
     (case body a s of Inl e \<Rightarrow> Inl e | Inr s' \<Rightarrow> for_each body as s')"

text \<open>
  Step 1: \<open>Array(GRID_SIZE).fill(null).map(...)\<close>, every cell a wall with its coordinates.
\<close>

definition wall_grid :: "(int \<Rightarrow> int \<Rightarrow> string) \<Rightarrow> Grid" where
  "wall_grid ids =
     map (\<lambda>y. map (\<lambda>x. \<lparr>cell_x = x, cell_y = y, cell_type = Wall, portalColor = None,
                         cell_id = ids x y\<rparr>) [0..GRID_SIZE - 1]) [0..GRID_SIZE - 1]"

text \<open>
  Step 2, the carving loop. The stack is a list with its top at the end; a neighbour entry
  is \<open>(nx, ny, dx, dy)\<close> with \<open>dx = d.dx / 2\<close> and \<open>dy = d.dy / 2\<close>.
\<close>

definition carve_neighbors :: "Pos set \<Rightarrow> int \<Rightarrow> int \<Rightarrow> (int \<times> int \<times> int \<times> int) list" where
  "carve_neighbors visited x y =
     concat (map (\<lambda>d.
        (let nx = x + fst d; ny = y + snd d in
         if nx > 0 \<and> nx < GRID_SIZE - 1 \<and> ny > 0 \<and> ny < GRID_SIZE - 1 then
           (if (nx, ny) \<notin> visited then [(nx, ny, fst d div 2, snd d div 2)] else [])
         else [])) CARVE_DIRECTIONS)"

function carve :: "(nat \<Rightarrow> nat) \<Rightarrow> nat \<Rightarrow> Grid \<Rightarrow> Pos list \<Rightarrow> Pos set \<Rightarrow> error + Grid" where
  "carve pick i grid stack visited =
     (if stack = [] then Inr grid
      else
        (let x = fst (last stack); y = snd (last stack);
             neighbors = carve_neighbors visited x y
         in if length neighbors > 0 then
              (case neighbors ! (pick i mod length neighbors) of (nx, ny, dx, dy) \<Rightarrow>
                 (case set_type grid (x + dx) (y + dy) Empty of
                    Inl e \<Rightarrow> Inl e
                  | Inr grid1 \<Rightarrow>
                      (case set_type grid1 nx ny Empty of
                         Inl e \<Rightarrow> Inl e
                       | Inr grid2 \<Rightarrow>
                           carve pick (i + 1) grid2 (stack @ [(nx, ny)]) (insert (nx, ny) visited))))
            else carve pick i grid (butlast stack) visited))"
  by pat_completeness auto

text \<open>
  Step 4, the search for the farthest empty cell. Queue entries are \<open>(x, y, d)\<close>; the
  map \<open>dists\<close> is keyed by position.
\<close>

definition GOAL_MOVES :: "(int \<times> int) list" where
  "GOAL_MOVES = [(0, -1), (0, 1), (-1, 0), (1, 0)]"

definition visit_move ::
  "Grid \<Rightarrow> int \<times> int \<times> int \<Rightarrow> int \<times> int \<Rightarrow> (Pos \<rightharpoonup> int) \<times> (int \<times> int \<times> int) list \<Rightarrow>
   error + (Pos \<rightharpoonup> int) \<times> (int \<times> int \<times> int) list" where
  "visit_move grid cur m dq =
     (case cur of (cx, cy, d) \<Rightarrow>
        (let nx = cx + fst m; ny = cy + snd m in
         if nx \<ge> 0 \<and> nx < GRID_SIZE \<and> ny \<ge> 0 \<and> ny < GRID_SIZE then
           (case cell_at grid nx ny of
              None \<Rightarrow> Inl TypeError
            | Some c \<Rightarrow>
                if cell_type c = Empty \<and> fst dq (nx, ny) = None then
                  Inr ((fst dq)((nx, ny) \<mapsto> d + 1), snd dq @ [(nx, ny, d + 1)])
                else Inr dq)
         else Inr dq))"

function find_goal ::
  "Grid \<Rightarrow> (Pos \<rightharpoonup> int) \<Rightarrow> (int \<times> int \<times> int) list \<Rightarrow> int \<Rightarrow> Pos \<Rightarrow> error + Pos" where
  "find_goal grid dists [] bestDist goalPos = Inr goalPos"
| "find_goal grid dists (cur # q) bestDist goalPos =
     (let best = (if snd (snd cur) > bestDist then (snd (snd cur), (fst cur, fst (snd cur)))
                  else (bestDist, goalPos))
      in case for_each (visit_move grid cur) GOAL_MOVES (dists, q) of
           Inl e \<Rightarrow> Inl e
         | Inr (dists', q') \<Rightarrow> find_goal grid dists' q' (fst best) (snd best))"
  by pat_completeness auto

text \<open>
  Steps 5 and 6. The nested \<open>for\<close> loops run over the rows \<open>y\<close> and, inside, the
  columns \<open>x\<close>.
\<close>

definition all_positions :: "int \<Rightarrow> int \<Rightarrow> Pos list" where
  "all_positions lo hi = concat (map (\<lambda>y. map (\<lambda>x. (x, y)) [lo..hi]) [lo..hi])"

definition collect_empties :: "Grid \<Rightarrow> error + Pos list" where
  "collect_empties grid =
     for_each (\<lambda>p empties.
        (case cell_at grid (fst p) (snd p) of
           None \<Rightarrow> Inl TypeError
         | Some c \<Rightarrow> Inr (if cell_type c = Empty then empties @ [p] else empties)))
       (all_positions 0 (GRID_SIZE - 1)) []"

definition place_portals :: "(Pos list \<Rightarrow> Pos list) \<Rightarrow> Pos list \<Rightarrow> Grid \<Rightarrow> error + Grid" where
  "place_portals shuffled empties grid =
     (if length empties \<ge> 2 then
        (case shuffled empties of
           p1 # p2 # _ \<Rightarrow>
             and_then (set_type grid (fst p1) (snd p1) Portal) (\<lambda>g1.
             and_then (set_portalColor g1 (fst p1) (snd p1) Blue) (\<lambda>g2.
             and_then (set_type g2 (fst p2) (snd p2) Portal) (\<lambda>g3.
             set_portalColor g3 (fst p2) (snd p2) Blue)))
         | _ \<Rightarrow> Inl TypeError)
      else Inr grid)"

definition punch_holes :: "(int \<Rightarrow> int \<Rightarrow> bool) \<Rightarrow> Grid \<Rightarrow> error + Grid" where
  "punch_holes hole grid =
     for_each (\<lambda>p g.
        (case cell_at g (fst p) (snd p) of
           None \<Rightarrow> Inl TypeError
         | Some c \<Rightarrow>
             if cell_type c = Wall \<and> hole (fst p) (snd p) then set_type g (fst p) (snd p) Empty
             else Inr g))
       (all_positions 1 (GRID_SIZE - 2)) grid"

text \<open>
  Steps 1 to 6 of one attempt.
\<close>

definition build_maze :: "Randomness \<Rightarrow> error + Grid" where
  "build_maze r =
     and_then (set_type (wall_grid (cell_ids r)) 1 1 Empty) (\<lambda>g1.
     and_then (carve (carve_pick r) 0 g1 [(1, 1)] {(1, 1)}) (\<lambda>g2.
     and_then (set_type g2 1 1 Start) (\<lambda>g3.
     and_then (find_goal g3 [(1, 1) \<mapsto> 0] [(1, 1, 0)] 0 (1, 1)) (\<lambda>goalPos.
     and_then (set_type g3 (fst goalPos) (snd goalPos) Goal) (\<lambda>g4.
     and_then (collect_empties g4) (\<lambda>empties.
     and_then (place_portals (shuffle r) empties g4) (\<lambda>g5.
     punch_holes (punch r) g5)))))))"

text \<open>
  The retry loop with its validation (step 7) and the fallback after it. \<open>attempts\<close>
  counts the attempts already made; the fallback writes into the grid of the last one.
\<close>

function attempt_loop :: "(nat \<Rightarrow> Randomness) \<Rightarrow> int \<Rightarrow> nat \<Rightarrow> Grid \<Rightarrow> error + Level" where
  "attempt_loop rnd maxBreaks attempts grid =
     (if attempts < 20 then
        (case build_maze (rnd attempts) of
           Inl e \<Rightarrow> Inl e
         | Inr grid' \<Rightarrow>
             (case solveMaze grid' 0 of
                Inl e \<Rightarrow> Inl e
              | Inr solNoBreak \<Rightarrow>
                  (case solveMaze grid' maxBreaks of
                     Inl e \<Rightarrow> Inl e
                   | Inr solWithBreak \<Rightarrow>
                       (case (solNoBreak, solWithBreak) of
                          (Some (stepsNoBreak, _), Some (stepsWithBreak, _)) \<Rightarrow>
                            Inr \<lparr>level_id = fresh_id (rnd attempts),
                                 level_name = ''Random Sector '' @ sector (rnd attempts),
                                 level_grid = grid', level_maxBreaks = maxBreaks,
                                 optimalStepsNoBreak = Some stepsNoBreak,
                                 optimalStepsWithBreak = Some stepsWithBreak,
                                 createdAt = clock (rnd attempts)\<rparr>
                        | _ \<Rightarrow> attempt_loop rnd maxBreaks (attempts + 1) grid'))))
      else
        and_then (set_type grid 1 1 Start) (\<lambda>g1.
        and_then (set_type g1 2 1 Empty) (\<lambda>g2.
        and_then (set_type g2 3 1 Goal) (\<lambda>g3.
        Inr \<lparr>level_id = fresh_id (rnd attempts), level_name = ''Fallback Level'',
             level_grid = g3, level_maxBreaks = maxBreaks,
             optimalStepsNoBreak = Some 2, optimalStepsWithBreak = Some 2,
             createdAt = clock (rnd attempts)\<rparr>))))"
  by pat_completeness auto

termination attempt_loop
  by (relation "measure (\<lambda>(rnd, maxBreaks, attempts, grid). 20 - attempts)") auto

declare attempt_loop.simps [simp del]

definition generateRandomLevel :: "(nat \<Rightarrow> Randomness) \<Rightarrow> int \<Rightarrow> error + Level" where
  "generateRandomLevel rnd maxBreaks = attempt_loop rnd maxBreaks 0 []"

section \<open>Specification notions\<close>

text \<open>
  A grid is well formed when it is rectangular and every cell stores the coordinates of its
  own place (column \<open>x\<close>, row \<open>y\<close>), as every grid built by the program does.
\<close>

definition wf_grid :: "Grid \<Rightarrow> bool" where
  "wf_grid grid \<longleftrightarrow>
     list_all (\<lambda>(j, row). length row = length (hd grid) \<and>
                 list_all (\<lambda>(i, c). cell_x c = int i \<and> cell_y c = int j) (enumerate 0 row))
       (enumerate 0 grid)"

definition in_grid :: "Grid \<Rightarrow> Pos \<Rightarrow> bool" where
  "in_grid grid p \<longleftrightarrow>
     0 \<le> fst p \<and> fst p < int (length (hd grid)) \<and> 0 \<le> snd p \<and> snd p < int (length grid)"

definition is_wall :: "Grid \<Rightarrow> Pos \<Rightarrow> bool" where
  "is_wall grid p =
     (case cell_at grid (fst p) (snd p) of None \<Rightarrow> False | Some c \<Rightarrow> cell_type c = Wall)"

definition is_start :: "Grid \<Rightarrow> Pos \<Rightarrow> bool" where
  "is_start grid p =
     (case cell_at grid (fst p) (snd p) of None \<Rightarrow> False | Some c \<Rightarrow> cell_type c = Start)"

definition is_goal :: "Grid \<Rightarrow> Pos \<Rightarrow> bool" where
  "is_goal grid p =
     (case cell_at grid (fst p) (snd p) of None \<Rightarrow> False | Some c \<Rightarrow> cell_type c = Goal)"

definition start_cells :: "Grid \<Rightarrow> Cell list" where
  "start_cells grid = filter (\<lambda>c. cell_type c = Start) (concat grid)"

definition goal_cells :: "Grid \<Rightarrow> Cell list" where
  "goal_cells grid = filter (\<lambda>c. cell_type c = Goal) (concat grid)"

definition cardinal_neighbor :: "Pos \<Rightarrow> Pos \<Rightarrow> bool" where
  "cardinal_neighbor p q \<longleftrightarrow>
     q = (fst p, snd p - 1) \<or> q = (fst p + 1, snd p) \<or> q = (fst p, snd p + 1) \<or> q = (fst p - 1, snd p)"

definition same_color_portals :: "Grid \<Rightarrow> Pos \<Rightarrow> Pos \<Rightarrow> bool" where
  "same_color_portals grid p q \<longleftrightarrow>
     p \<noteq> q \<and>
     (case (cell_at grid (fst p) (snd p), cell_at grid (fst q) (snd q)) of
        (Some a, Some b) \<Rightarrow>
           cell_type a = Portal \<and> cell_type b = Portal \<and>
           portalColor a \<noteq> None \<and> portalColor b = portalColor a
      | _ \<Rightarrow> False)"

text \<open>
  The successor relation on augmented states \<open>(x, y, breaksUsed)\<close> in the words of the
  specification: a teleport to another portal of the same colour keeps the break count; a
  cardinal move inside the grid keeps it on a non-wall cell and increments it, within the
  budget, on a wall.
\<close>

definition legal_step :: "Grid \<Rightarrow> int \<Rightarrow> VisitKey \<Rightarrow> VisitKey \<Rightarrow> bool" where
  "legal_step grid K s t =
     (case (s, t) of ((x, y, b), (x', y', b')) \<Rightarrow>
        (same_color_portals grid (x, y) (x', y') \<and> b' = b) \<or>
        (cardinal_neighbor (x, y) (x', y') \<and> in_grid grid (x', y') \<and>
           (if is_wall grid (x', y') then b + 1 \<le> K \<and> b' = b + 1 else b' = b)))"

text \<open>
  An action sequence is given by the positions it visits: it starts on a start cell, ends on
  a goal cell, every step is a teleport or a cardinal move inside the grid, and it enters at
  most \<open>K\<close> wall cells. It has \<open>length ps - 1\<close> actions.
\<close>

definition position_step :: "Grid \<Rightarrow> Pos \<Rightarrow> Pos \<Rightarrow> bool" where
  "position_step grid p q \<longleftrightarrow>
     same_color_portals grid p q \<or> (cardinal_neighbor p q \<and> in_grid grid q)"

fun steps_legal :: "Grid \<Rightarrow> Pos list \<Rightarrow> bool" where
  "steps_legal grid [] = True"
| "steps_legal grid [p] = True"
| "steps_legal grid (p # q # ps) = (position_step grid p q \<and> steps_legal grid (q # ps))"

definition wall_entries :: "Grid \<Rightarrow> Pos list \<Rightarrow> int" where
  "wall_entries grid ps = int (length (filter (is_wall grid) (tl ps)))"

definition action_sequence :: "Grid \<Rightarrow> int \<Rightarrow> Pos list \<Rightarrow> bool" where
  "action_sequence grid K ps \<longleftrightarrow>
     ps \<noteq> [] \<and> is_start grid (hd ps) \<and> is_goal grid (last ps) \<and>
     steps_legal grid ps \<and> wall_entries grid ps \<le> K"

text \<open>
  A shuffle rearranges its argument: it keeps its length and its elements, as any sort does.
\<close>

definition rearranges :: "(Pos list \<Rightarrow> Pos list) \<Rightarrow> bool" where
  "rearranges f \<longleftrightarrow> (\<forall>xs. length (f xs) = length xs \<and> set (f xs) = set xs)"

section \<open>Notions used in the proofs\<close>

definition pushed :: "(PathNode \<Rightarrow> bool) \<Rightarrow> Frontier \<Rightarrow> Frontier \<Rightarrow> bool" where
  "pushed P vq vq' \<longleftrightarrow>
     (\<exists>new. snd vq' = snd vq @ new \<and> fst vq' = fst vq \<union> visitKey ` set new \<and>
            distinct (map visitKey new) \<and> visitKey ` set new \<inter> fst vq = {} \<and>
            (\<forall>n\<in>set new. P n))"

definition portal_dests :: "Portals \<Rightarrow> Pos set" where
  "portal_dests portals = (\<Union>c. case portals c of None \<Rightarrow> {} | Some ps \<Rightarrow> set ps)"

definition search_positions :: "int \<Rightarrow> int \<Rightarrow> Portals \<Rightarrow> Pos set" where
  "search_positions rows cols portals = ({0..<cols} \<times> {0..<rows}) \<union> portal_dests portals"

definition search_breaks :: "int \<Rightarrow> PathNode list \<Rightarrow> int set" where
  "search_breaks K queue = (\<Union>n\<in>set queue. {breaksUsed n .. max K (breaksUsed n)})"

definition search_space :: "int \<Rightarrow> int \<Rightarrow> int \<Rightarrow> Portals \<Rightarrow> PathNode list \<Rightarrow> VisitKey set" where
  "search_space rows cols K portals queue =
     {(x, y, b). (x, y) \<in> search_positions rows cols portals \<and> b \<in> search_breaks K queue}"

definition bfs_measure :: "int \<Rightarrow> int \<Rightarrow> int \<Rightarrow> Portals \<Rightarrow> VisitKey set \<Rightarrow> PathNode list \<Rightarrow> nat" where
  "bfs_measure rows cols K portals visited queue =
     2 * card (search_space rows cols K portals queue - visited) + length queue"

definition child_in_space :: "int \<Rightarrow> int \<Rightarrow> int \<Rightarrow> Portals \<Rightarrow> PathNode \<Rightarrow> PathNode \<Rightarrow> bool" where
  "child_in_space rows cols K portals cur n \<longleftrightarrow>
     (node_x n, node_y n) \<in> search_positions rows cols portals \<and>
     (breaksUsed n = breaksUsed cur \<or> (breaksUsed n = breaksUsed cur + 1 \<and> breaksUsed n \<le> K))"

definition portal_cells :: "PortalColor \<Rightarrow> Cell list \<Rightarrow> Pos list" where
  "portal_cells c cs =
     map (\<lambda>cl. (cell_x cl, cell_y cl))
       (filter (\<lambda>cl. cell_type cl = Portal \<and> portalColor cl = Some c) cs)"

definition child :: "Grid \<Rightarrow> int \<Rightarrow> PathNode \<Rightarrow> PathNode \<Rightarrow> bool" where
  "child grid K cur n \<longleftrightarrow>
     legal_step grid K (visitKey cur) (visitKey n) \<and> steps n = steps cur + 1 \<and>
     path n = path cur @ [(node_x n, node_y n)]"

definition expanded :: "Grid \<Rightarrow> int \<Rightarrow> PathNode \<Rightarrow> Frontier \<Rightarrow> Frontier \<Rightarrow> bool" where
  "expanded grid K cur vq vq' \<longleftrightarrow>
     pushed (child grid K cur) vq vq' \<and>
     (\<forall>k. legal_step grid K (visitKey cur) k \<longrightarrow> k \<in> fst vq')"

inductive reach :: "Grid \<Rightarrow> int \<Rightarrow> Pos \<Rightarrow> nat \<Rightarrow> VisitKey \<Rightarrow> bool" for grid K start where
  reach_0: "reach grid K start 0 (fst start, snd start, 0)"
| reach_Suc: "reach grid K start d k \<Longrightarrow> legal_step grid K k k' \<Longrightarrow> reach grid K start (Suc d) k'"

definition key_pos :: "VisitKey \<Rightarrow> Pos" where
  "key_pos k = (fst k, fst (snd k))"

definition node_inv :: "Grid \<Rightarrow> int \<Rightarrow> Pos \<Rightarrow> VisitKey set \<Rightarrow> PathNode \<Rightarrow> bool" where
  "node_inv grid K start V n \<longleftrightarrow>
     visitKey n \<in> V \<and> 0 \<le> steps n \<and> reach grid K start (nat (steps n)) (visitKey n) \<and>
     (\<forall>d. reach grid K start d (visitKey n) \<longrightarrow> steps n \<le> int d)"

definition bfs_inv :: "Grid \<Rightarrow> int \<Rightarrow> Pos \<Rightarrow> Pos \<Rightarrow> VisitKey set \<Rightarrow> PathNode list \<Rightarrow> bool" where
  "bfs_inv grid K start goal V Q \<longleftrightarrow>
     (fst start, snd start, 0) \<in> V \<and>
     (\<forall>n\<in>set Q. node_inv grid K start V n) \<and>
     sorted (map steps Q) \<and>
     (\<forall>n\<in>set Q. steps n \<le> steps (hd Q) + 1) \<and>
     (\<forall>k\<in>V. k \<notin> visitKey ` set Q \<longrightarrow>
        key_pos k \<noteq> goal \<and> (\<forall>k'. legal_step grid K k k' \<longrightarrow> k' \<in> V)) \<and>
     (\<forall>k d. Q \<noteq> [] \<and> reach grid K start d k \<and> int d < steps (hd Q) \<longrightarrow>
        k \<in> V \<and> k \<notin> visitKey ` set Q)"

definition action_path :: "Grid \<Rightarrow> int \<Rightarrow> Pos \<Rightarrow> Pos \<Rightarrow> Pos list \<Rightarrow> bool" where
  "action_path grid K start goal ps \<longleftrightarrow>
     ps \<noteq> [] \<and> hd ps = start \<and> last ps = goal \<and> steps_legal grid ps \<and> wall_entries grid ps \<le> K"

definition path_inv :: "Grid \<Rightarrow> int \<Rightarrow> Pos \<Rightarrow> PathNode \<Rightarrow> bool" where
  "path_inv grid K start n \<longleftrightarrow>
     path n \<noteq> [] \<and> hd (path n) = start \<and> last (path n) = (node_x n, node_y n) \<and>
     int (length (path n)) = steps n + 1 \<and> steps_legal grid (path n) \<and>
     wall_entries grid (path n) = breaksUsed n \<and> breaksUsed n \<le> K"

definition search_result_ok ::
  "Grid \<Rightarrow> int \<Rightarrow> Pos \<Rightarrow> Pos \<Rightarrow> error + (int \<times> Pos list) option \<Rightarrow> bool" where
  "search_result_ok grid K start goal r \<longleftrightarrow>
     (case r of
        Inl e \<Rightarrow> False
      | Inr None \<Rightarrow> (\<forall>d k. reach grid K start d k \<longrightarrow> key_pos k \<noteq> goal)
      | Inr (Some (s, p)) \<Rightarrow>
          action_path grid K start goal p \<and> int (length p) = s + 1 \<and>
          (\<forall>d k. reach grid K start d k \<and> key_pos k = goal \<longrightarrow> s \<le> int d))"

definition state_ok :: "Grid \<Rightarrow> int \<Rightarrow> PathNode \<Rightarrow> bool" where
  "state_ok grid K n \<longleftrightarrow> in_grid grid (node_x n, node_y n) \<and> 0 \<le> breaksUsed n \<and> breaksUsed n \<le> K"

definition within_budget :: "int \<Rightarrow> PathNode \<Rightarrow> bool" where
  "within_budget K n \<longleftrightarrow> 0 \<le> breaksUsed n \<and> breaksUsed n \<le> K"

definition lattice :: "Pos set" where
  "lattice = {p. 0 < fst p \<and> fst p < GRID_SIZE - 1 \<and> 0 < snd p \<and> snd p < GRID_SIZE - 1}"

definition carve_measure :: "Pos list \<Rightarrow> Pos set \<Rightarrow> nat" where
  "carve_measure stack visited = 2 * card (lattice - visited) + length stack"

definition discovered ::
  "(int \<times> int \<times> int \<Rightarrow> bool) \<Rightarrow> (Pos \<rightharpoonup> int) \<times> (int \<times> int \<times> int) list \<Rightarrow>
   (Pos \<rightharpoonup> int) \<times> (int \<times> int \<times> int) list \<Rightarrow> bool" where
  "discovered P dq dq' \<longleftrightarrow>
     (\<exists>new. snd dq' = snd dq @ new \<and> dom (fst dq') = dom (fst dq) \<union> key_pos ` set new \<and>
            distinct (map key_pos new) \<and> key_pos ` set new \<inter> dom (fst dq) = {} \<and>
            (\<forall>e\<in>set new. P e))"

definition board :: "Pos set" where
  "board = {0..<GRID_SIZE} \<times> {0..<GRID_SIZE}"

definition find_goal_measure :: "(Pos \<rightharpoonup> int) \<Rightarrow> (int \<times> int \<times> int) list \<Rightarrow> nat" where
  "find_goal_measure dists q = 2 * card (board - dom dists) + length q"

definition gen_grid :: "Grid \<Rightarrow> bool" where
  "gen_grid g \<longleftrightarrow>
     int (length g) = GRID_SIZE \<and> (\<forall>row\<in>set g. int (length row) = GRID_SIZE) \<and>
     (\<forall>x y c. cell_at g x y = Some c \<longrightarrow> cell_x c = x \<and> cell_y c = y)"

definition type_at :: "Grid \<Rightarrow> Pos \<Rightarrow> CellType option" where
  "type_at g p = map_option cell_type (cell_at g (fst p) (snd p))"

inductive linked :: "Grid \<Rightarrow> Pos \<Rightarrow> bool" for g where
  linked_start: "linked g (1, 1)"
| linked_step: "linked g p \<Longrightarrow> cardinal_neighbor p q \<Longrightarrow> type_at g q = Some Empty \<Longrightarrow> linked g q"

definition entry_ok :: "Grid \<Rightarrow> int \<times> int \<times> int \<Rightarrow> bool" where
  "entry_ok g e \<longleftrightarrow>
     linked g (key_pos e) \<and> 0 \<le> snd (snd e) \<and>
     (0 < snd (snd e) \<longrightarrow> type_at g (key_pos e) = Some Empty)"

fun open_walk :: "Grid \<Rightarrow> Pos list \<Rightarrow> bool" where
  "open_walk g [] = True"
| "open_walk g [p] = True"
| "open_walk g (p # q # ps) =
     (cardinal_neighbor p q \<and> type_at g q = Some Empty \<and> open_walk g (q # ps))"

definition rows_from :: "nat \<Rightarrow> Cell list list \<Rightarrow> bool" where
  "rows_from n rows \<longleftrightarrow>
     (\<forall>j<length rows. \<forall>i<length (rows ! j).
        cell_x (rows ! j ! i) = int i \<and> cell_y (rows ! j ! i) = int (n + j))"

definition maze_ok :: "Grid \<Rightarrow> bool" where
  "maze_ok g \<longleftrightarrow>
     gen_grid g \<and> length (start_cells g) = 1 \<and> length (goal_cells g) = 1 \<and>
     (\<exists>ps. action_sequence g 0 ps)"

definition fallback_patch :: "Grid \<Rightarrow> error + Grid" where
  "fallback_patch grid =
     and_then (set_type grid 1 1 Start) (\<lambda>g1.
     and_then (set_type g1 2 1 Empty) (\<lambda>g2. set_type g2 3 1 Goal))"

section \<open>Example grids\<close>

abbreviation mk_cell :: "int \<Rightarrow> int \<Rightarrow> CellType \<Rightarrow> Cell" where
  "mk_cell x y t \<equiv> \<lparr>cell_x = x, cell_y = y, cell_type = t, portalColor = None, cell_id = []\<rparr>"

abbreviation mk_portal :: "int \<Rightarrow> int \<Rightarrow> PortalColor \<Rightarrow> Cell" where
  "mk_portal x y c \<equiv> \<lparr>cell_x = x, cell_y = y, cell_type = Portal, portalColor = Some c, cell_id = []\<rparr>"

definition corridor_grid :: Grid where "corridor_grid = [[mk_cell 0 0 Start, mk_cell 1 0 Empty, mk_cell 2 0 Goal]]"

definition blocked_grid :: Grid where "blocked_grid = [[mk_cell 0 0 Start, mk_cell 1 0 Wall, mk_cell 2 0 Goal]]"

definition portal_grid :: Grid where "portal_grid = [[mk_cell 0 0 Start, mk_portal 1 0 Blue, mk_cell 2 0 Wall, mk_cell 3 0 Goal],
   [mk_cell 0 1 Empty, mk_cell 1 1 Wall, mk_cell 2 1 Wall, mk_portal 3 1 Blue]]"

definition detour_grid :: Grid where
  "detour_grid = [[mk_cell 0 0 Start, mk_cell 1 0 Wall, mk_cell 2 0 Goal],
         [mk_cell 0 1 Empty, mk_cell 1 1 Empty, mk_cell 2 1 Empty]]"

text \<open>
  A grid with two shortest paths from the start to the goal.
\<close>

definition square_grid :: Grid where
  "square_grid = [[mk_cell 0 0 Start, mk_cell 1 0 Empty],
         [mk_cell 0 1 Empty, mk_cell 1 1 Goal]]"

text \<open>
  A grid whose last row is empty: the search reads \<open>grid[2][0]\<close>, which is \<open>undefined\<close>,
  and throws.
\<close>

definition ragged_grid :: Grid where
  "ragged_grid = [[mk_cell 0 0 Start, mk_cell 1 0 Empty, mk_cell 2 0 Goal],
         [mk_cell 0 1 Wall, mk_cell 1 1 Empty, mk_cell 2 1 Empty],
         []]"

definition no_goal_grid :: Grid where "no_goal_grid = [[mk_cell 0 0 Start, mk_cell 1 0 Wall, mk_cell 2 0 Empty]]"

text \<open>
  The outcome of the randomness when \<open>Math.random()\<close> returns \<open>0.5\<close> at every call: the
  carving takes index 1 where it has two or three choices and index 0 where it has one, the
  comparator returns 0 and the sort leaves the list as it is, and no hole is punched.
\<close>

definition const_random :: "nat \<Rightarrow> Randomness" where
  "const_random k = \<lparr>cell_ids = (\<lambda>x y. []), carve_pick = (\<lambda>i. 1), shuffle = (\<lambda>xs. xs),
     punch = (\<lambda>x y. False), fresh_id = [], sector = ''550'', clock = 0\<rparr>"

section \<open>Termination of the search\<close>

lemma pushedI:
  "Q' = Q @ new \<Longrightarrow> V' = V \<union> visitKey ` set new \<Longrightarrow> distinct (map visitKey new) \<Longrightarrow>
   visitKey ` set new \<inter> V = {} \<Longrightarrow> (\<And>n. n \<in> set new \<Longrightarrow> P n) \<Longrightarrow> pushed P (V, Q) (V', Q')"
  unfolding pushed_def by (intro exI[of _ new]) simp

lemma pushedE:
  assumes "pushed P (V, Q) (V', Q')"
  obtains new where "Q' = Q @ new" "V' = V \<union> visitKey ` set new" "distinct (map visitKey new)"
    "visitKey ` set new \<inter> V = {}" "\<And>n. n \<in> set new \<Longrightarrow> P n"
  using assms unfolding pushed_def by auto

lemma pushed_refl: "pushed P vq vq"
  unfolding pushed_def by (rule exI[of _ "[]"]) simp

lemma pushed_trans:
  assumes "pushed P a b" "pushed P b c"
  shows "pushed P a c"
proof -
  obtain Va Qa Vb Qb Vc Qc where [simp]: "a = (Va, Qa)" "b = (Vb, Qb)" "c = (Vc, Qc)"
    by (cases a, cases b, cases c) blast
  from assms(1) obtain n1 where 1: "Qb = Qa @ n1" "Vb = Va \<union> visitKey ` set n1"
    "distinct (map visitKey n1)" "visitKey ` set n1 \<inter> Va = {}" "\<And>n. n \<in> set n1 \<Longrightarrow> P n"
    by (auto elim: pushedE)
  from assms(2) obtain n2 where 2: "Qc = Qb @ n2" "Vc = Vb \<union> visitKey ` set n2"
    "distinct (map visitKey n2)" "visitKey ` set n2 \<inter> Vb = {}" "\<And>n. n \<in> set n2 \<Longrightarrow> P n"
    by (auto elim: pushedE)
  have "pushed P (Va, Qa) (Vc, Qc)"
  proof (rule pushedI[of _ _ "n1 @ n2"])
    show "Qc = Qa @ n1 @ n2" by (simp add: 1 2)
    show "Vc = Va \<union> visitKey ` set (n1 @ n2)" by (simp add: 1 2 image_Un Un_assoc)
    show "distinct (map visitKey (n1 @ n2))" using 1(3) 2(3) 2(4) unfolding 1(2) by auto
    show "visitKey ` set (n1 @ n2) \<inter> Va = {}" using 1(4) 2(4) unfolding 1(2) by auto
    show "\<And>n. n \<in> set (n1 @ n2) \<Longrightarrow> P n" using 1(5) 2(5) by auto
  qed
  then show ?thesis by simp
qed

lemma pushed_push_if_new: "pushed P vq (push_if_new n vq)" if "P n"
proof (cases "visitKey n \<in> fst vq")
  case True
  then have "push_if_new n vq = vq" by (simp add: push_if_new_def)
  then show ?thesis by (simp add: pushed_refl)
next
  case False
  then have e: "push_if_new n vq = (insert (visitKey n) (fst vq), snd vq @ [n])"
    by (simp add: push_if_new_def)
  have "pushed P (fst vq, snd vq) (insert (visitKey n) (fst vq), snd vq @ [n])"
    by (rule pushedI[of _ _ "[n]"]) (use False that in simp_all)
  then show ?thesis by (simp add: e)
qed

lemma pushed_mono: "pushed P a b \<Longrightarrow> (\<And>n. P n \<Longrightarrow> R n) \<Longrightarrow> pushed R a b"
  unfolding pushed_def by (elim exE conjE, rule_tac x=new in exI) simp

lemma pushed_teleport:
  assumes "\<And>d. d \<in> set dests \<Longrightarrow> (fst d \<noteq> node_x cur \<or> snd d \<noteq> node_y cur) \<Longrightarrow>
     P \<lparr>node_x = fst d, node_y = snd d, breaksUsed = breaksUsed cur,
        steps = steps cur + 1, path = path cur @ [(fst d, snd d)]\<rparr>"
  shows "pushed P vq (fold (teleport cur) dests vq)"
  using assms
proof (induction dests arbitrary: vq)
  case Nil
  show ?case by (simp add: pushed_refl)
next
  case (Cons d ds)
  have 1: "pushed P vq (teleport cur d vq)"
    unfolding teleport_def using Cons.prems[of d]
    by (auto simp: pushed_refl intro!: pushed_push_if_new)
  have 2: "pushed P (teleport cur d vq) (fold (teleport cur) ds (teleport cur d vq))"
    by (rule Cons.IH) (use Cons.prems in auto)
  show ?case using pushed_trans[OF 1 2] by simp
qed

lemma pushed_try_teleport:
  assumes "\<And>c pair d. cell_type cell = Portal \<Longrightarrow> portalColor cell = Some c \<Longrightarrow> portals c = Some pair \<Longrightarrow>
     d \<in> set pair \<Longrightarrow> (fst d \<noteq> node_x cur \<or> snd d \<noteq> node_y cur) \<Longrightarrow>
     P \<lparr>node_x = fst d, node_y = snd d, breaksUsed = breaksUsed cur,
        steps = steps cur + 1, path = path cur @ [(fst d, snd d)]\<rparr>"
  shows "pushed P vq (try_teleport portals cell cur vq)"
  unfolding try_teleport_def
  by (auto simp: pushed_refl split: option.splits intro!: pushed_teleport assms)

lemma pushed_try_move:
  assumes "try_move grid rows cols K cur dir vq = Inr vq'"
    and "\<And>nb. 0 \<le> node_x cur + fst dir \<Longrightarrow> node_x cur + fst dir < cols \<Longrightarrow>
           0 \<le> node_y cur + snd dir \<Longrightarrow> node_y cur + snd dir < rows \<Longrightarrow>
           cell_at grid (node_x cur + fst dir) (node_y cur + snd dir) = Some nb \<Longrightarrow>
           (if cell_type nb = Wall then breaksUsed cur + 1 else breaksUsed cur) \<le> K \<Longrightarrow>
           P \<lparr>node_x = node_x cur + fst dir, node_y = node_y cur + snd dir,
              breaksUsed = (if cell_type nb = Wall then breaksUsed cur + 1 else breaksUsed cur),
              steps = steps cur + 1, path = path cur @ [(node_x cur + fst dir, node_y cur + snd dir)]\<rparr>"
  shows "pushed P vq vq'"
proof (cases "0 \<le> node_x cur + fst dir \<and> node_x cur + fst dir < cols \<and>
              0 \<le> node_y cur + snd dir \<and> node_y cur + snd dir < rows")
  case False
  then have "vq' = vq" using assms(1) unfolding try_move_def Let_def by (auto split: if_splits)
  then show ?thesis by (simp add: pushed_refl)
next
  case True
  then obtain nb where nb: "cell_at grid (node_x cur + fst dir) (node_y cur + snd dir) = Some nb"
    using assms(1) unfolding try_move_def Let_def by (auto split: option.splits)
  define b' where "b' = (if cell_type nb = Wall then breaksUsed cur + 1 else breaksUsed cur)"
  show ?thesis
  proof (cases "b' \<le> K")
    case False
    then have "vq' = vq" using assms(1) True nb unfolding try_move_def Let_def b'_def
      by (auto split: if_splits)
    then show ?thesis by (simp add: pushed_refl)
  next
    case le: True
    have P: "P \<lparr>node_x = node_x cur + fst dir, node_y = node_y cur + snd dir,
              breaksUsed = b', steps = steps cur + 1,
              path = path cur @ [(node_x cur + fst dir, node_y cur + snd dir)]\<rparr>"
      unfolding b'_def using assms(2)[OF _ _ _ _ nb] True le unfolding b'_def by blast
    have "vq' = push_if_new \<lparr>node_x = node_x cur + fst dir, node_y = node_y cur + snd dir,
              breaksUsed = b', steps = steps cur + 1,
              path = path cur @ [(node_x cur + fst dir, node_y cur + snd dir)]\<rparr> vq"
      using assms(1) True nb le unfolding try_move_def Let_def b'_def
      by (auto split: if_splits)
    then show ?thesis using pushed_push_if_new[of P, OF P] by simp
  qed
qed

lemma pushed_try_moves:
  assumes "try_moves grid rows cols K cur dirs vq = Inr vq'"
    and "\<And>dir nb. dir \<in> set dirs \<Longrightarrow> 0 \<le> node_x cur + fst dir \<Longrightarrow> node_x cur + fst dir < cols \<Longrightarrow>
           0 \<le> node_y cur + snd dir \<Longrightarrow> node_y cur + snd dir < rows \<Longrightarrow>
           cell_at grid (node_x cur + fst dir) (node_y cur + snd dir) = Some nb \<Longrightarrow>
           (if cell_type nb = Wall then breaksUsed cur + 1 else breaksUsed cur) \<le> K \<Longrightarrow>
           P \<lparr>node_x = node_x cur + fst dir, node_y = node_y cur + snd dir,
              breaksUsed = (if cell_type nb = Wall then breaksUsed cur + 1 else breaksUsed cur),
              steps = steps cur + 1, path = path cur @ [(node_x cur + fst dir, node_y cur + snd dir)]\<rparr>"
  shows "pushed P vq vq'"
  using assms
proof (induction dirs arbitrary: vq)
  case Nil
  then show ?case by (simp add: pushed_refl)
next
  case (Cons d ds)
  from Cons.prems(1) obtain vq1 where m: "try_move grid rows cols K cur d vq = Inr vq1"
    and r: "try_moves grid rows cols K cur ds vq1 = Inr vq'"
    by (auto split: sum.splits)
  have 1: "pushed P vq vq1"
    by (rule pushed_try_move[OF m]) (rule Cons.prems(2), simp_all)
  have 2: "pushed P vq1 vq'"
    by (rule Cons.IH[OF r]) (rule Cons.prems(2), simp_all)
  show ?case by (rule pushed_trans[OF 1 2])
qed

lemma UNIV_PortalColor: "(UNIV :: PortalColor set) = {Blue, Red, Green, Yellow}"
  using PortalColor.exhaust by auto

lemma finite_portal_dests: "finite (portal_dests portals)"
  unfolding portal_dests_def UNIV_PortalColor by (auto split: option.splits)

lemma finite_search_space: "finite (search_space rows cols K portals queue)"
proof -
  have "finite (search_positions rows cols portals \<times> search_breaks K queue)"
    unfolding search_positions_def search_breaks_def by (auto simp: finite_portal_dests)
  moreover have "search_space rows cols K portals queue \<subseteq>
      (\<lambda>((x, y), b). (x, y, b)) ` (search_positions rows cols portals \<times> search_breaks K queue)"
    unfolding search_space_def by force
  ultimately show ?thesis by (meson finite_imageI finite_subset)
qed

lemma expand_in_space:
  assumes "expand grid rows cols K portals cell cur vq = Inr vq'"
  shows "pushed (child_in_space rows cols K portals cur) vq vq'"
proof -
  have 1: "pushed (child_in_space rows cols K portals cur) vq (try_teleport portals cell cur vq)"
  proof (rule pushed_try_teleport)
    fix c pair d assume "portals c = Some pair" "d \<in> set pair"
    then have "d \<in> portal_dests portals" unfolding portal_dests_def by (intro UN_I[of c]) simp_all
    then show "child_in_space rows cols K portals cur
       \<lparr>node_x = fst d, node_y = snd d, breaksUsed = breaksUsed cur,
        steps = steps cur + 1, path = path cur @ [(fst d, snd d)]\<rparr>"
      by (simp add: child_in_space_def search_positions_def)
  qed
  have 2: "pushed (child_in_space rows cols K portals cur) (try_teleport portals cell cur vq) vq'"
    by (rule pushed_try_moves[OF assms[unfolded expand_def]])
       (auto simp: child_in_space_def search_positions_def split: if_splits)
  show ?thesis by (rule pushed_trans[OF 1 2])
qed

lemma bfs_measure_decreases:
  assumes "pushed (child_in_space rows cols K portals cur) (visited, queue) (visited', queue')"
  shows "bfs_measure rows cols K portals visited' queue' < bfs_measure rows cols K portals visited (cur # queue)"
proof -
  from assms obtain new where new: "queue' = queue @ new" "visited' = visited \<union> visitKey ` set new"
    "distinct (map visitKey new)" "visitKey ` set new \<inter> visited = {}"
    "\<And>n. n \<in> set new \<Longrightarrow> child_in_space rows cols K portals cur n"
    by (auto elim: pushedE)
  let ?U = "search_space rows cols K portals (cur # queue)"
  let ?U' = "search_space rows cols K portals queue'"
  have br: "search_breaks K queue' \<subseteq> search_breaks K (cur # queue)"
  proof
    fix b assume "b \<in> search_breaks K queue'"
    then obtain n where n: "n \<in> set queue \<or> n \<in> set new" "breaksUsed n \<le> b" "b \<le> max K (breaksUsed n)"
      unfolding search_breaks_def new(1) by auto
    show "b \<in> search_breaks K (cur # queue)"
    proof (cases "n \<in> set queue")
      case True
      then show ?thesis using n unfolding search_breaks_def by auto
    next
      case False
      then have "child_in_space rows cols K portals cur n" using n(1) new(5) by blast
      then have "breaksUsed cur \<le> b \<and> b \<le> max K (breaksUsed cur)"
        using n(2,3) unfolding child_in_space_def by auto
      then show ?thesis unfolding search_breaks_def by auto
    qed
  qed
  have sub: "?U' \<subseteq> ?U" unfolding search_space_def using br by auto
  have keys: "visitKey ` set new \<subseteq> ?U - visited"
  proof
    fix k assume k: "k \<in> visitKey ` set new"
    then obtain n where n: "n \<in> set new" "k = visitKey n" by auto
    from new(5)[OF n(1)] have "k \<in> ?U"
      unfolding child_in_space_def search_space_def search_breaks_def n(2) visitKey_def by auto
    then show "k \<in> ?U - visited" using k new(4) by auto
  qed
  have fin: "finite (?U - visited)" using finite_search_space by auto
  have cardnew: "card (visitKey ` set new) = length new"
    using distinct_card[OF new(3)] by simp
  have "?U' - visited' \<subseteq> (?U - visited) - visitKey ` set new"
    using sub new(2) by auto
  then have "card (?U' - visited') \<le> card ((?U - visited) - visitKey ` set new)"
    using fin by (intro card_mono) auto
  also have "\<dots> = card (?U - visited) - length new"
    using keys fin cardnew by (simp add: card_Diff_subset finite_subset)
  finally have c: "card (?U' - visited') \<le> card (?U - visited) - length new" .
  have "length new \<le> card (?U - visited)"
    using card_mono[OF fin keys] cardnew by simp
  with c show ?thesis unfolding bfs_measure_def new(1) by simp
qed

termination bfs
proof (relation "measure (\<lambda>(grid, rows, cols, K, goal, portals, visited, queue).
          bfs_measure rows cols K portals visited queue)", goal_cases)
  case 1
  show ?case by simp
next
  case (2 grid rows cols K goal portals visited current queue cell vq visited' queue')
  then have "expand grid rows cols K portals cell current (visited, queue) = Inr (visited', queue')"
    by simp
  from bfs_measure_decreases[OF expand_in_space[OF this]]
  show ?case by simp
qed

lemma expand_with_in_space:
  assumes "expand_with dirs grid rows cols K portals cell cur vq = Inr vq'"
  shows "pushed (child_in_space rows cols K portals cur) vq vq'"
proof -
  have 1: "pushed (child_in_space rows cols K portals cur) vq (try_teleport portals cell cur vq)"
  proof (rule pushed_try_teleport)
    fix c pair d assume "portals c = Some pair" "d \<in> set pair"
    then have "d \<in> portal_dests portals" unfolding portal_dests_def by (intro UN_I[of c]) simp_all
    then show "child_in_space rows cols K portals cur
       \<lparr>node_x = fst d, node_y = snd d, breaksUsed = breaksUsed cur,
        steps = steps cur + 1, path = path cur @ [(fst d, snd d)]\<rparr>"
      by (simp add: child_in_space_def search_positions_def)
  qed
  have 2: "pushed (child_in_space rows cols K portals cur) (try_teleport portals cell cur vq) vq'"
    by (rule pushed_try_moves[OF assms[unfolded expand_with_def]])
       (auto simp: child_in_space_def search_positions_def split: if_splits)
  show ?thesis by (rule pushed_trans[OF 1 2])
qed

termination bfs_with
proof (relation "measure (\<lambda>(dirs, grid, rows, cols, K, goal, portals, visited, queue).
          bfs_measure rows cols K portals visited queue)", goal_cases)
  case 1
  show ?case by simp
next
  case (2 dirs grid rows cols K goal portals visited current queue cell vq visited' queue')
  then have "expand_with dirs grid rows cols K portals cell current (visited, queue) =
      Inr (visited', queue')"
    by simp
  from bfs_measure_decreases[OF expand_with_in_space[OF this]]
  show ?case by simp
qed

termination bfs_enqueued
proof (relation "measure (\<lambda>(grid, rows, cols, K, goal, portals, visited, queue).
          bfs_measure rows cols K portals visited queue)", goal_cases)
  case 1
  show ?case by simp
next
  case (2 grid rows cols K goal portals visited current queue cell vq visited' queue')
  then have "expand grid rows cols K portals cell current (visited, queue) = Inr (visited', queue')"
    by simp
  from bfs_measure_decreases[OF expand_in_space[OF this]]
  show ?case by simp
qed

section \<open>Well-formed grids, portals and endpoints\<close>

lemma wf_grid_nth:
  "wf_grid grid \<Longrightarrow> j < length grid \<Longrightarrow> length (grid ! j) = length (hd grid)"
  "wf_grid grid \<Longrightarrow> j < length grid \<Longrightarrow> i < length (grid ! j) \<Longrightarrow>
     cell_x (grid ! j ! i) = int i \<and> cell_y (grid ! j ! i) = int j"
proof -
  assume wf: "wf_grid grid" and j: "j < length grid"
  have "(j, grid ! j) \<in> set (enumerate 0 grid)"
    using j by (simp add: in_set_enumerate_eq)
  with wf have r: "length (grid ! j) = length (hd grid) \<and>
      list_all (\<lambda>(i, c). cell_x c = int i \<and> cell_y c = int j) (enumerate 0 (grid ! j))"
    unfolding wf_grid_def list_all_iff by fastforce
  then show "length (grid ! j) = length (hd grid)" by simp
  assume i: "i < length (grid ! j)"
  have "(i, grid ! j ! i) \<in> set (enumerate 0 (grid ! j))"
    using i by (simp add: in_set_enumerate_eq)
  with r show "cell_x (grid ! j ! i) = int i \<and> cell_y (grid ! j ! i) = int j"
    unfolding list_all_iff by fastforce
qed

lemma cell_at_in_grid:
  assumes "wf_grid grid" "in_grid grid (x, y)"
  shows "\<exists>c. cell_at grid x y = Some c \<and> cell_x c = x \<and> cell_y c = y \<and> c \<in> set (concat grid)"
proof -
  from assms(2) have b: "0 \<le> x" "x < int (length (hd grid))" "0 \<le> y" "y < int (length grid)"
    by (simp_all add: in_grid_def)
  then have j: "nat y < length grid" by simp
  have len: "length (grid ! nat y) = length (hd grid)" by (rule wf_grid_nth(1)[OF assms(1) j])
  then have i: "nat x < length (grid ! nat y)" using b by simp
  have c: "cell_at grid x y = Some (grid ! nat y ! nat x)"
    using b len by (simp add: cell_at_def)
  have "grid ! nat y ! nat x \<in> set (grid ! nat y)" using i by simp
  moreover have "grid ! nat y \<in> set grid" using j by simp
  ultimately have "grid ! nat y ! nat x \<in> set (concat grid)" by auto
  then show ?thesis using c wf_grid_nth(2)[OF assms(1) j i] b by simp
qed

lemma cell_at_Some_in_grid:
  assumes "wf_grid grid" "cell_at grid x y = Some c"
  shows "in_grid grid (x, y)"
proof -
  from assms(2) have b: "0 \<le> y" "y < int (length grid)" "0 \<le> x" "x < int (length (grid ! nat y))"
    by (auto simp: cell_at_def Let_def split: if_splits)
  then have "length (grid ! nat y) = length (hd grid)"
    using wf_grid_nth(1)[OF assms(1), of "nat y"] by simp
  then show ?thesis using b by (simp add: in_grid_def)
qed

lemma concat_cell_at:
  assumes "wf_grid grid" "c \<in> set (concat grid)"
  shows "cell_at grid (cell_x c) (cell_y c) = Some c \<and> in_grid grid (cell_x c, cell_y c)"
proof -
  from assms(2) obtain row where row: "row \<in> set grid" "c \<in> set row" by auto
  then obtain j where j: "j < length grid" "grid ! j = row" by (auto simp: in_set_conv_nth)
  from row(2) obtain i where i: "i < length row" "row ! i = c" by (auto simp: in_set_conv_nth)
  have xy: "cell_x c = int i" "cell_y c = int j"
    using wf_grid_nth(2)[OF assms(1) j(1), of i] i j by simp_all
  have "cell_at grid (int i) (int j) = Some c"
    using i j by (simp add: cell_at_def)
  then show ?thesis using xy cell_at_Some_in_grid[OF assms(1)] by simp
qed

lemma fold_add_portal:
  "fold add_portal cs m c =
     (if portal_cells c cs = [] then m c
      else Some ((case m c of None \<Rightarrow> [] | Some ps \<Rightarrow> ps) @ portal_cells c cs))"
proof (induction cs arbitrary: m)
  case Nil
  show ?case by (simp add: portal_cells_def)
next
  case (Cons a cs)
  show ?case
    unfolding fold_Cons comp_apply Cons.IH
    by (auto simp: add_portal_def portal_cells_def split: option.splits)
qed

lemma fold_rows: "fold (\<lambda>row acc. fold f row acc) rows acc = fold f (concat rows) acc"
  by (induction rows arbitrary: acc) simp_all

lemma findPortals_eq:
  "findPortals grid c =
     (if portal_cells c (concat grid) = [] then None else Some (portal_cells c (concat grid)))"
proof -
  have "findPortals grid = fold add_portal (concat grid) Map.empty"
    unfolding findPortals_def by (rule fold_rows)
  then show ?thesis by (simp add: fold_add_portal)
qed

lemma findPortals_sound:
  assumes "wf_grid grid" "findPortals grid c = Some pair" "d \<in> set pair"
  shows "\<exists>cl. cell_at grid (fst d) (snd d) = Some cl \<and> cell_type cl = Portal \<and> portalColor cl = Some c"
proof -
  from assms(2) have "pair = portal_cells c (concat grid)"
    by (simp add: findPortals_eq split: if_splits)
  with assms(3) obtain cl where cl: "cl \<in> set (concat grid)" "cell_type cl = Portal"
    "portalColor cl = Some c" "d = (cell_x cl, cell_y cl)"
    unfolding portal_cells_def by auto
  from concat_cell_at[OF assms(1) cl(1)] cl show ?thesis by auto
qed

lemma findPortals_complete:
  assumes "wf_grid grid" "cell_at grid x y = Some cl" "cell_type cl = Portal" "portalColor cl = Some c"
  shows "\<exists>pair. findPortals grid c = Some pair \<and> (x, y) \<in> set pair"
proof -
  from cell_at_in_grid[OF assms(1) cell_at_Some_in_grid[OF assms(1,2)]] assms(2)
  have "cell_x cl = x" "cell_y cl = y" "cl \<in> set (concat grid)" by auto
  then have "(x, y) \<in> set (portal_cells c (concat grid))"
    using assms(3,4) unfolding portal_cells_def by force
  then show ?thesis by (auto simp: findPortals_eq)
qed

lemma fold_scan_endpoint:
  "fold scan_endpoint cs se =
     ((if filter (\<lambda>c. cell_type c = Start) cs = [] then fst se
       else Some (cell_x (last (filter (\<lambda>c. cell_type c = Start) cs)),
                  cell_y (last (filter (\<lambda>c. cell_type c = Start) cs)))),
      (if filter (\<lambda>c. cell_type c = Goal) cs = [] then snd se
       else Some (cell_x (last (filter (\<lambda>c. cell_type c = Goal) cs)),
                  cell_y (last (filter (\<lambda>c. cell_type c = Goal) cs)))))"
proof (induction cs arbitrary: se)
  case Nil
  show ?case by simp
next
  case (Cons a cs)
  show ?case unfolding fold_Cons comp_apply Cons.IH
    by (simp add: scan_endpoint_def Let_def)
qed

lemma findEndpoints_eq:
  "findEndpoints grid =
     ((if start_cells grid = [] then None
       else Some (cell_x (last (start_cells grid)), cell_y (last (start_cells grid)))),
      (if goal_cells grid = [] then None
       else Some (cell_x (last (goal_cells grid)), cell_y (last (goal_cells grid)))))"
  unfolding findEndpoints_def fold_rows fold_scan_endpoint start_cells_def goal_cells_def by simp

lemma findEndpoints_Some:
  assumes wf: "wf_grid grid" and fe: "findEndpoints grid = (Some start, Some goal)"
  shows "is_start grid start" "is_goal grid goal" "in_grid grid start" "grid \<noteq> []"
proof -
  from fe have ne: "start_cells grid \<noteq> []" "goal_cells grid \<noteq> []"
    and s: "start = (cell_x (last (start_cells grid)), cell_y (last (start_cells grid)))"
    and g: "goal = (cell_x (last (goal_cells grid)), cell_y (last (goal_cells grid)))"
    unfolding findEndpoints_eq by (auto split: if_splits)
  have "last (start_cells grid) \<in> set (start_cells grid)" using ne by simp
  then have cs: "last (start_cells grid) \<in> set (concat grid)" "cell_type (last (start_cells grid)) = Start"
    unfolding start_cells_def by auto
  have "last (goal_cells grid) \<in> set (goal_cells grid)" using ne by simp
  then have cg: "last (goal_cells grid) \<in> set (concat grid)" "cell_type (last (goal_cells grid)) = Goal"
    unfolding goal_cells_def by auto
  from concat_cell_at[OF wf cs(1)] cs(2) show "is_start grid start" "in_grid grid start"
    unfolding s is_start_def by simp_all
  from concat_cell_at[OF wf cg(1)] cg(2) show "is_goal grid goal"
    unfolding g is_goal_def by simp
  from cs(1) show "grid \<noteq> []" by auto
qed

lemma single_start:
  assumes wf: "wf_grid grid" and one: "length (start_cells grid) = 1"
    and fe: "fst (findEndpoints grid) = Some start"
  shows "is_start grid p \<longleftrightarrow> p = start"
proof -
  from one obtain c where c: "start_cells grid = [c]" by (cases "start_cells grid") auto
  then have s: "start = (cell_x c, cell_y c)" using fe unfolding findEndpoints_eq by simp
  have "c \<in> set (start_cells grid)" by (simp add: c)
  then have cin: "c \<in> set (concat grid)" "cell_type c = Start"
    unfolding start_cells_def by auto
  show ?thesis
  proof
    assume "is_start grid p"
    then obtain c' where c': "cell_at grid (fst p) (snd p) = Some c'" "cell_type c' = Start"
      unfolding is_start_def by (auto split: option.splits)
    from cell_at_in_grid[OF wf cell_at_Some_in_grid[OF wf c'(1)]] c'(1)
    have "c' \<in> set (concat grid)" "cell_x c' = fst p" "cell_y c' = snd p" by auto
    then have "c' \<in> set (start_cells grid)" using c'(2) unfolding start_cells_def by simp
    then have "c' = c" using c by simp
    then show "p = start" using s \<open>cell_x c' = fst p\<close> \<open>cell_y c' = snd p\<close> by (cases p) simp
  next
    assume "p = start"
    then show "is_start grid p" using concat_cell_at[OF wf cin(1)] cin(2) s
      unfolding is_start_def by simp
  qed
qed

lemma single_goal:
  assumes wf: "wf_grid grid" and one: "length (goal_cells grid) = 1"
    and fe: "snd (findEndpoints grid) = Some goal"
  shows "is_goal grid p \<longleftrightarrow> p = goal"
proof -
  from one obtain c where c: "goal_cells grid = [c]" by (cases "goal_cells grid") auto
  then have s: "goal = (cell_x c, cell_y c)" using fe unfolding findEndpoints_eq by simp
  have "c \<in> set (goal_cells grid)" by (simp add: c)
  then have cin: "c \<in> set (concat grid)" "cell_type c = Goal"
    unfolding goal_cells_def by auto
  show ?thesis
  proof
    assume "is_goal grid p"
    then obtain c' where c': "cell_at grid (fst p) (snd p) = Some c'" "cell_type c' = Goal"
      unfolding is_goal_def by (auto split: option.splits)
    from cell_at_in_grid[OF wf cell_at_Some_in_grid[OF wf c'(1)]] c'(1)
    have "c' \<in> set (concat grid)" "cell_x c' = fst p" "cell_y c' = snd p" by auto
    then have "c' \<in> set (goal_cells grid)" using c'(2) unfolding goal_cells_def by simp
    then have "c' = c" using c by simp
    then show "p = goal" using s \<open>cell_x c' = fst p\<close> \<open>cell_y c' = snd p\<close> by (cases p) simp
  next
    assume "p = goal"
    then show "is_goal grid p" using concat_cell_at[OF wf cin(1)] cin(2) s
      unfolding is_goal_def by simp
  qed
qed

section \<open>One expansion step\<close>

lemma pushed_fst_mono: "pushed P vq vq' \<Longrightarrow> fst vq \<subseteq> fst vq'"
  unfolding pushed_def by auto

lemma fst_push_if_new: "fst (push_if_new n vq) = insert (visitKey n) (fst vq)"
  by (auto simp: push_if_new_def)

lemma fold_teleport_mono: "fst vq \<subseteq> fst (fold (teleport cur) ds vq)"
  by (rule pushed_fst_mono[of "\<lambda>_. True"]) (rule pushed_teleport, simp)

lemma fold_teleport_complete:
  assumes "d \<in> set ds" "fst d \<noteq> node_x cur \<or> snd d \<noteq> node_y cur"
  shows "(fst d, snd d, breaksUsed cur) \<in> fst (fold (teleport cur) ds vq)"
  using assms(1)
proof (induction ds arbitrary: vq)
  case Nil
  then show ?case by simp
next
  case (Cons a ds)
  show ?case
  proof (cases "d = a")
    case True
    have "(fst d, snd d, breaksUsed cur) \<in> fst (teleport cur a vq)"
      using assms(2) True by (auto simp: teleport_def fst_push_if_new visitKey_def)
    then show ?thesis using fold_teleport_mono[of "teleport cur a vq" cur ds] by auto
  next
    case False
    then have "d \<in> set ds" using Cons.prems by simp
    from Cons.IH[OF this] show ?thesis by simp
  qed
qed

lemma try_moves_mono:
  assumes "try_moves grid rows cols K cur dirs vq = Inr vq'"
  shows "fst vq \<subseteq> fst vq'"
  by (rule pushed_fst_mono[of "\<lambda>_. True"]) (rule pushed_try_moves[OF assms], simp)

lemma try_moves_complete:
  assumes "try_moves grid rows cols K cur dirs vq = Inr vq'"
    and "dir \<in> set dirs"
    and "0 \<le> node_x cur + fst dir" "node_x cur + fst dir < cols"
    and "0 \<le> node_y cur + snd dir" "node_y cur + snd dir < rows"
    and "cell_at grid (node_x cur + fst dir) (node_y cur + snd dir) = Some nb"
    and "(if cell_type nb = Wall then breaksUsed cur + 1 else breaksUsed cur) \<le> K"
  shows "(node_x cur + fst dir, node_y cur + snd dir,
          if cell_type nb = Wall then breaksUsed cur + 1 else breaksUsed cur) \<in> fst vq'"
  using assms(1,2)
proof (induction dirs arbitrary: vq)
  case Nil
  then show ?case by simp
next
  case (Cons a ds)
  from Cons.prems(1) obtain vq1 where m: "try_move grid rows cols K cur a vq = Inr vq1"
    and r: "try_moves grid rows cols K cur ds vq1 = Inr vq'"
    by (auto split: sum.splits)
  show ?case
  proof (cases "dir = a")
    case True
    have "vq1 = push_if_new \<lparr>node_x = node_x cur + fst dir, node_y = node_y cur + snd dir,
            breaksUsed = (if cell_type nb = Wall then breaksUsed cur + 1 else breaksUsed cur),
            steps = steps cur + 1,
            path = path cur @ [(node_x cur + fst dir, node_y cur + snd dir)]\<rparr> vq"
      using m assms(3-8) True unfolding try_move_def Let_def by (auto split: if_splits)
    then have "(node_x cur + fst dir, node_y cur + snd dir,
          if cell_type nb = Wall then breaksUsed cur + 1 else breaksUsed cur) \<in> fst vq1"
      by (simp add: fst_push_if_new visitKey_def)
    then show ?thesis using try_moves_mono[OF r] by auto
  next
    case False
    then have "dir \<in> set ds" using Cons.prems(2) by simp
    from Cons.IH[OF r this] show ?thesis .
  qed
qed

lemma try_moves_no_crash:
  assumes "wf_grid grid" "rows = int (length grid)" "cols = int (length (hd grid))"
  shows "\<exists>vq'. try_moves grid rows cols K cur dirs vq = Inr vq'"
proof (induction dirs arbitrary: vq)
  case Nil
  show ?case by simp
next
  case (Cons a ds)
  have "\<exists>vq1. try_move grid rows cols K cur a vq = Inr vq1"
  proof (cases "0 \<le> node_x cur + fst a \<and> node_x cur + fst a < cols \<and>
                0 \<le> node_y cur + snd a \<and> node_y cur + snd a < rows")
    case True
    then have "in_grid grid (node_x cur + fst a, node_y cur + snd a)"
      using assms(2,3) by (simp add: in_grid_def)
    from cell_at_in_grid[OF assms(1) this] obtain c where
      "cell_at grid (node_x cur + fst a) (node_y cur + snd a) = Some c" by blast
    then show ?thesis unfolding try_move_def Let_def by simp
  next
    case False
    then show ?thesis unfolding try_move_def Let_def by auto
  qed
  then obtain vq1 where "try_move grid rows cols K cur a vq = Inr vq1" ..
  then show ?case using Cons.IH[of vq1] by simp
qed

lemma expand_spec:
  assumes wf: "wf_grid grid" and rows: "rows = int (length grid)" and cols: "cols = int (length (hd grid))"
    and cell: "cell_at grid (node_x cur) (node_y cur) = Some cell"
    and bK: "breaksUsed cur \<le> K"
  shows "\<exists>vq'. expand grid rows cols K (findPortals grid) cell cur vq = Inr vq' \<and>
               expanded grid K cur vq vq'"
proof -
  let ?tp = "try_teleport (findPortals grid) cell cur vq"
  obtain vq' where vq': "try_moves grid rows cols K cur DIRECTIONS ?tp = Inr vq'"
    using try_moves_no_crash[OF wf rows cols] by blast
  have 1: "pushed (child grid K cur) vq ?tp"
  proof (rule pushed_try_teleport)
    fix c pair d
    assume a: "cell_type cell = Portal" "portalColor cell = Some c" "findPortals grid c = Some pair"
      "d \<in> set pair" "fst d \<noteq> node_x cur \<or> snd d \<noteq> node_y cur"
    from findPortals_sound[OF wf a(3,4)] obtain cl where
      cl: "cell_at grid (fst d) (snd d) = Some cl" "cell_type cl = Portal" "portalColor cl = Some c"
      by blast
    have "same_color_portals grid (node_x cur, node_y cur) (fst d, snd d)"
      unfolding same_color_portals_def using a(1,2,5) cl cell by auto
    then show "child grid K cur \<lparr>node_x = fst d, node_y = snd d, breaksUsed = breaksUsed cur,
        steps = steps cur + 1, path = path cur @ [(fst d, snd d)]\<rparr>"
      by (simp add: child_def legal_step_def visitKey_def)
  qed
  have 2: "pushed (child grid K cur) ?tp vq'"
  proof (rule pushed_try_moves[OF vq'])
    fix dir nb
    assume a: "dir \<in> set DIRECTIONS" "0 \<le> node_x cur + fst dir" "node_x cur + fst dir < cols"
      "0 \<le> node_y cur + snd dir" "node_y cur + snd dir < rows"
      "cell_at grid (node_x cur + fst dir) (node_y cur + snd dir) = Some nb"
      "(if cell_type nb = Wall then breaksUsed cur + 1 else breaksUsed cur) \<le> K"
    have card: "cardinal_neighbor (node_x cur, node_y cur) (node_x cur + fst dir, node_y cur + snd dir)"
      using a(1) by (auto simp: DIRECTIONS_def cardinal_neighbor_def)
    have ing: "in_grid grid (node_x cur + fst dir, node_y cur + snd dir)"
      using a(2-5) rows cols by (simp add: in_grid_def)
    have w: "is_wall grid (node_x cur + fst dir, node_y cur + snd dir) \<longleftrightarrow> cell_type nb = Wall"
      using a(6) by (simp add: is_wall_def)
    show "child grid K cur \<lparr>node_x = node_x cur + fst dir, node_y = node_y cur + snd dir,
              breaksUsed = (if cell_type nb = Wall then breaksUsed cur + 1 else breaksUsed cur),
              steps = steps cur + 1,
              path = path cur @ [(node_x cur + fst dir, node_y cur + snd dir)]\<rparr>"
      using card ing w a(7) by (auto simp: child_def legal_step_def visitKey_def split: if_splits)
  qed
  have 3: "k \<in> fst vq'" if k: "legal_step grid K (visitKey cur) k" for k
  proof -
    obtain x' y' b' where k_def: "k = (x', y', b')" by (cases k)
    from k consider
      (tele) "same_color_portals grid (node_x cur, node_y cur) (x', y')" "b' = breaksUsed cur"
      | (move) "cardinal_neighbor (node_x cur, node_y cur) (x', y')" "in_grid grid (x', y')"
          "if is_wall grid (x', y') then breaksUsed cur + 1 \<le> K \<and> b' = breaksUsed cur + 1
           else b' = breaksUsed cur"
      unfolding legal_step_def k_def visitKey_def by auto
    then show ?thesis
    proof cases
      case tele
      from tele(1) cell obtain cl c where
        ne: "(node_x cur, node_y cur) \<noteq> (x', y')" and
        cl: "cell_at grid x' y' = Some cl" "cell_type cl = Portal" "portalColor cl = Some c" and
        cc: "cell_type cell = Portal" "portalColor cell = Some c"
        unfolding same_color_portals_def by (auto split: option.splits)
      from findPortals_complete[OF wf cell cc] obtain pair where
        pair: "findPortals grid c = Some pair" "(node_x cur, node_y cur) \<in> set pair" by blast
      from findPortals_complete[OF wf cl] pair(1) have d: "(x', y') \<in> set pair" by auto
      have "length pair > 1"
      proof (rule ccontr)
        assume "\<not> 1 < length pair"
        then have "length pair \<le> 1" by simp
        then have "card (set pair) \<le> 1" using card_length[of pair] by linarith
        moreover have "{(node_x cur, node_y cur), (x', y')} \<subseteq> set pair" using pair(2) d by simp
        then have "card {(node_x cur, node_y cur), (x', y')} \<le> card (set pair)"
          by (intro card_mono) simp_all
        ultimately show False using ne by simp
      qed
      then have tp: "?tp = fold (teleport cur) pair vq"
        unfolding try_teleport_def using cc pair(1) by simp
      have "(fst (x', y'), snd (x', y'), breaksUsed cur) \<in> fst ?tp"
        unfolding tp by (rule fold_teleport_complete[OF d]) (use ne in auto)
      then show ?thesis using try_moves_mono[OF vq'] k_def tele(2) by auto
    next
      case move
      define dir where "dir = (x' - node_x cur, y' - node_y cur)"
      have dir: "dir \<in> set DIRECTIONS" using move(1)
        unfolding dir_def DIRECTIONS_def cardinal_neighbor_def by auto
      have xy: "x' = node_x cur + fst dir" "y' = node_y cur + snd dir" by (simp_all add: dir_def)
      from cell_at_in_grid[OF wf move(2)] obtain nb where nb: "cell_at grid x' y' = Some nb" by blast
      have w: "is_wall grid (x', y') \<longleftrightarrow> cell_type nb = Wall" using nb by (simp add: is_wall_def)
      have le: "(if cell_type nb = Wall then breaksUsed cur + 1 else breaksUsed cur) \<le> K"
        using move(3) w bK by auto
      have b': "b' = (if cell_type nb = Wall then breaksUsed cur + 1 else breaksUsed cur)"
        using move(3) w by auto
      have bounds: "0 \<le> node_x cur + fst dir" "node_x cur + fst dir < cols"
        "0 \<le> node_y cur + snd dir" "node_y cur + snd dir < rows"
        using move(2) xy rows cols by (simp_all add: in_grid_def)
      from try_moves_complete[OF vq' dir bounds nb[unfolded xy] le]
      show ?thesis unfolding k_def b' xy .
    qed
  qed
  have "expanded grid K cur vq vq'"
    unfolding expanded_def using pushed_trans[OF 1 2] 3 by blast
  then show ?thesis using vq' by (auto simp: expand_def)
qed

section \<open>The breadth-first invariant\<close>

lemma bfs_inv_init:
  "bfs_inv grid K start goal {(fst start, snd start, 0)}
     [\<lparr>node_x = fst start, node_y = snd start, breaksUsed = 0, steps = 0, path = [(fst start, snd start)]\<rparr>]"
  unfolding bfs_inv_def node_inv_def by (auto simp: visitKey_def intro: reach_0)

lemma bfs_inv_below:
  assumes inv: "bfs_inv grid K start goal V (cur # Q)"
    and r: "reach grid K start d k" and d: "int d \<le> steps cur"
  shows "k \<in> V"
  using r d
proof (cases rule: reach.cases)
  case reach_0
  then show ?thesis using inv by (simp add: bfs_inv_def)
next
  case (reach_Suc d' k0)
  then have "int d' < steps (hd (cur # Q))" using d by simp
  with inv reach_Suc(2) have "k0 \<in> V \<and> k0 \<notin> visitKey ` set (cur # Q)"
    unfolding bfs_inv_def by blast
  with inv reach_Suc(3) show ?thesis unfolding bfs_inv_def by blast
qed

lemma sorted_all_equal: "(\<And>x. x \<in> set xs \<Longrightarrow> x = (c::int)) \<Longrightarrow> sorted xs"
  by (induction xs) auto

lemma bfs_inv_step:
  assumes inv: "bfs_inv grid K start goal V (cur # Q)"
    and ng: "key_pos (visitKey cur) \<noteq> goal"
    and ex: "expanded grid K cur (V, Q) (V', Q')"
  shows "bfs_inv grid K start goal V' Q'"
proof -
  from ex obtain new where new: "Q' = Q @ new" "V' = V \<union> visitKey ` set new"
    "distinct (map visitKey new)" "visitKey ` set new \<inter> V = {}"
    "\<And>n. n \<in> set new \<Longrightarrow> child grid K cur n"
    unfolding expanded_def by (auto elim: pushedE)
  from ex have succs: "\<And>k. legal_step grid K (visitKey cur) k \<Longrightarrow> k \<in> V'"
    unfolding expanded_def fst_conv by blast
  have cur: "node_inv grid K start V cur" using inv by (simp add: bfs_inv_def)
  have oldQ: "\<And>n. n \<in> set Q \<Longrightarrow> node_inv grid K start V n" using inv by (simp add: bfs_inv_def)
  have sortedQ: "sorted (map steps Q)" and lo: "\<And>n. n \<in> set Q \<Longrightarrow> steps cur \<le> steps n"
    and hi: "\<And>n. n \<in> set Q \<Longrightarrow> steps n \<le> steps cur + 1"
    using inv by (auto simp: bfs_inv_def)
  have A: "(fst start, snd start, 0) \<in> V'" using inv new(2) by (simp add: bfs_inv_def)
  have newn: "node_inv grid K start V' n \<and> steps n = steps cur + 1" if n: "n \<in> set new" for n
  proof -
    from new(5)[OF n] have ch: "legal_step grid K (visitKey cur) (visitKey n)"
      "steps n = steps cur + 1" by (simp_all add: child_def)
    have r: "reach grid K start (Suc (nat (steps cur))) (visitKey n)"
      using cur ch(1) unfolding node_inv_def by (blast intro: reach_Suc)
    have "0 \<le> steps cur" using cur unfolding node_inv_def by simp
    then have s: "nat (steps n) = Suc (nat (steps cur))" using ch(2) by linarith
    have nv: "visitKey n \<notin> V" using new(4) n by auto
    have "steps n \<le> int d" if "reach grid K start d (visitKey n)" for d
    proof (rule ccontr)
      assume "\<not> steps n \<le> int d"
      then have "int d \<le> steps cur" using ch(2) by simp
      from bfs_inv_below[OF inv that this] nv show False by simp
    qed
    then show ?thesis using r s ch(2) n new(2) cur unfolding node_inv_def by auto
  qed
  have B: "\<forall>n\<in>set Q'. node_inv grid K start V' n"
  proof
    fix n assume "n \<in> set Q'"
    then consider "n \<in> set Q" | "n \<in> set new" using new(1) by auto
    then show "node_inv grid K start V' n"
    proof cases
      case 1
      from oldQ[OF 1] show ?thesis unfolding node_inv_def new(2) by simp
    next
      case 2
      then show ?thesis using newn by simp
    qed
  qed
  have C: "sorted (map steps Q')"
  proof -
    have "sorted (map steps new)"
      by (rule sorted_all_equal[of _ "steps cur + 1"]) (use newn in auto)
    then show ?thesis unfolding new(1) using sortedQ hi newn by (auto simp: sorted_append)
  qed
  have range: "\<And>n. n \<in> set Q' \<Longrightarrow> steps cur \<le> steps n \<and> steps n \<le> steps cur + 1"
    using lo hi newn new(1) by auto
  have D: "\<forall>n\<in>set Q'. steps n \<le> steps (hd Q') + 1"
  proof
    fix n assume n: "n \<in> set Q'"
    then have "Q' \<noteq> []" by auto
    then have "hd Q' \<in> set Q'" by simp
    from range[OF n] range[OF this] show "steps n \<le> steps (hd Q') + 1" by linarith
  qed
  have E: "\<forall>k\<in>V'. k \<notin> visitKey ` set Q' \<longrightarrow>
        key_pos k \<noteq> goal \<and> (\<forall>k'. legal_step grid K k k' \<longrightarrow> k' \<in> V')"
  proof (intro ballI impI)
    fix k assume k: "k \<in> V'" "k \<notin> visitKey ` set Q'"
    then have kV: "k \<in> V" and kQ: "k \<notin> visitKey ` set Q" using new(1,2) by auto
    show "key_pos k \<noteq> goal \<and> (\<forall>k'. legal_step grid K k k' \<longrightarrow> k' \<in> V')"
    proof (cases "k = visitKey cur")
      case True
      then show ?thesis using ng succs by simp
    next
      case False
      then have "k \<notin> visitKey ` set (cur # Q)" using kQ by simp
      with inv kV have "key_pos k \<noteq> goal \<and> (\<forall>k'. legal_step grid K k k' \<longrightarrow> k' \<in> V)"
        unfolding bfs_inv_def by blast
      then show ?thesis using new(2) by auto
    qed
  qed
  have F: "\<forall>k d. Q' \<noteq> [] \<and> reach grid K start d k \<and> int d < steps (hd Q') \<longrightarrow>
        k \<in> V' \<and> k \<notin> visitKey ` set Q'"
  proof (intro allI impI, elim conjE)
    fix k d assume ne: "Q' \<noteq> []" and r: "reach grid K start d k" and d: "int d < steps (hd Q')"
    have hdin: "hd Q' \<in> set Q'" using ne by simp
    from range[OF this] have "int d \<le> steps cur" using d by linarith
    from bfs_inv_below[OF inv r this] have kV: "k \<in> V'" using new(2) by simp
    have "k \<notin> visitKey ` set Q'"
    proof
      assume "k \<in> visitKey ` set Q'"
      then obtain n where n: "n \<in> set Q'" "k = visitKey n" by auto
      with B r have "steps n \<le> int d" unfolding node_inv_def by blast
      moreover have "steps (hd Q') \<le> steps n"
        using C n(1) ne by (cases Q') (auto)
      ultimately show False using d by simp
    qed
    with kV show "k \<in> V' \<and> k \<notin> visitKey ` set Q'" by simp
  qed
  show ?thesis unfolding bfs_inv_def using A B C D E F by blast
qed

lemma bfs_inv_found:
  assumes inv: "bfs_inv grid K start goal V (cur # Q)"
    and r: "reach grid K start d k" and g: "key_pos k = goal"
  shows "steps cur \<le> int d"
proof (rule ccontr)
  assume "\<not> steps cur \<le> int d"
  then have "int d < steps (hd (cur # Q))" by simp
  with inv r have "k \<in> V \<and> k \<notin> visitKey ` set (cur # Q)" unfolding bfs_inv_def by blast
  with inv have "key_pos k \<noteq> goal" unfolding bfs_inv_def by blast
  with g show False by simp
qed

lemma bfs_inv_empty:
  assumes inv: "bfs_inv grid K start goal V []"
    and r: "reach grid K start d k"
  shows "k \<in> V \<and> key_pos k \<noteq> goal"
  using r
proof (induction rule: reach.induct)
  case reach_0
  then show ?case using inv unfolding bfs_inv_def by simp
next
  case (reach_Suc d k k')
  then have "k' \<in> V" using inv unfolding bfs_inv_def by (simp del: split_paired_All) blast
  then show ?case using inv unfolding bfs_inv_def by (simp del: split_paired_All)
qed

lemma steps_legal_snoc:
  "steps_legal grid (ps @ [q]) \<longleftrightarrow> steps_legal grid ps \<and> (ps \<noteq> [] \<longrightarrow> position_step grid (last ps) q)"
  by (induction grid ps rule: steps_legal.induct) auto

lemma wall_entries_snoc:
  "ps \<noteq> [] \<Longrightarrow> wall_entries grid (ps @ [q]) = wall_entries grid ps + (if is_wall grid q then 1 else 0)"
  by (cases ps) (auto simp: wall_entries_def)

lemma wall_entries_nonneg: "0 \<le> wall_entries grid ps"
  by (simp add: wall_entries_def)

lemma portal_not_wall: "same_color_portals grid p q \<Longrightarrow> \<not> is_wall grid q"
  unfolding same_color_portals_def is_wall_def by (auto split: option.splits)

lemma legal_step_position:
  assumes "legal_step grid K (x, y, b) (x', y', b')"
  shows "position_step grid (x, y) (x', y') \<and> b' = b + (if is_wall grid (x', y') then 1 else 0) \<and>
         (b \<le> K \<longrightarrow> b' \<le> K)"
  using assms portal_not_wall[of grid "(x, y)" "(x', y')"]
  unfolding legal_step_def position_step_def by (auto split: if_splits)

lemma position_legal_step:
  assumes "position_step grid (x, y) (x', y')" "b + (if is_wall grid (x', y') then 1 else 0) \<le> K"
  shows "legal_step grid K (x, y, b) (x', y', b + (if is_wall grid (x', y') then 1 else 0))"
  using assms portal_not_wall[of grid "(x, y)" "(x', y')"]
  unfolding legal_step_def position_step_def by (auto split: if_splits)

lemma path_reach:
  assumes "ps \<noteq> []" "hd ps = start" "steps_legal grid ps" "wall_entries grid ps \<le> K"
  shows "reach grid K start (length ps - 1) (fst (last ps), snd (last ps), wall_entries grid ps)"
  using assms
proof (induction ps rule: rev_induct)
  case Nil
  then show ?case by simp
next
  case (snoc q ps)
  show ?case
  proof (cases "ps = []")
    case True
    then have "q = start" using snoc.prems(2) by simp
    then show ?thesis using True by (simp add: wall_entries_def reach_0)
  next
    case False
    have we: "wall_entries grid (ps @ [q]) = wall_entries grid ps + (if is_wall grid q then 1 else 0)"
      by (rule wall_entries_snoc[OF False])
    have sl: "steps_legal grid ps" "position_step grid (last ps) q"
      using snoc.prems(3) False by (simp_all add: steps_legal_snoc)
    have le: "wall_entries grid ps \<le> K" using snoc.prems(4) we by (auto split: if_splits)
    have hd: "hd ps = start" using snoc.prems(2) False by simp
    have r: "reach grid K start (length ps - 1) (fst (last ps), snd (last ps), wall_entries grid ps)"
      by (rule snoc.IH[OF False hd sl(1) le])
    have "legal_step grid K (fst (last ps), snd (last ps), wall_entries grid ps)
            (fst q, snd q, wall_entries grid ps + (if is_wall grid (fst q, snd q) then 1 else 0))"
      by (rule position_legal_step) (use sl(2) snoc.prems(4) we in simp_all)
    from reach_Suc[OF r this] show ?thesis using False we by simp
  qed
qed

lemma reach_bounds:
  assumes wf: "wf_grid grid" and s: "in_grid grid start" and K: "0 \<le> K"
    and r: "reach grid K start d k"
  shows "in_grid grid (key_pos k) \<and> 0 \<le> snd (snd k) \<and> snd (snd k) \<le> K"
  using r
proof (induction rule: reach.induct)
  case reach_0
  show ?case using s K by (simp add: key_pos_def)
next
  case (reach_Suc d k k')
  obtain x y b x' y' b' where k: "k = (x, y, b)" "k' = (x', y', b')"
    by (cases k, cases k') auto
  from reach_Suc.IH have b: "0 \<le> b" "b \<le> K" by (simp_all add: k)
  from legal_step_position[OF reach_Suc.hyps(2)[unfolded k]]
  have ps: "position_step grid (x, y) (x', y')" and b': "0 \<le> b'" "b' \<le> K"
    using b by (auto split: if_splits)
  have "in_grid grid (x', y')"
    using ps cell_at_Some_in_grid[OF wf, of x' y']
    unfolding position_step_def same_color_portals_def by (auto split: option.splits)
  then show ?case using b' by (simp add: k key_pos_def)
qed

lemma path_inv_child:
  assumes "path_inv grid K start cur" "child grid K cur n"
  shows "path_inv grid K start n"
proof -
  from assms(2) have ls: "legal_step grid K (node_x cur, node_y cur, breaksUsed cur)
       (node_x n, node_y n, breaksUsed n)"
    and st: "steps n = steps cur + 1" and p: "path n = path cur @ [(node_x n, node_y n)]"
    by (simp_all add: child_def visitKey_def)
  from legal_step_position[OF ls]
  have ps: "position_step grid (node_x cur, node_y cur) (node_x n, node_y n)"
    and b: "breaksUsed n = breaksUsed cur + (if is_wall grid (node_x n, node_y n) then 1 else 0)"
    and le: "breaksUsed cur \<le> K \<longrightarrow> breaksUsed n \<le> K" by blast+
  from assms(1) have c: "path cur \<noteq> []" "hd (path cur) = start"
    "last (path cur) = (node_x cur, node_y cur)" "int (length (path cur)) = steps cur + 1"
    "steps_legal grid (path cur)" "wall_entries grid (path cur) = breaksUsed cur" "breaksUsed cur \<le> K"
    by (simp_all add: path_inv_def)
  show ?thesis unfolding path_inv_def p
    using c ps b le st by (simp add: steps_legal_snoc wall_entries_snoc)
qed

lemma path_inv_init:
  "0 \<le> K \<Longrightarrow> path_inv grid K start
     \<lparr>node_x = fst start, node_y = snd start, breaksUsed = 0, steps = 0, path = [(fst start, snd start)]\<rparr>"
  by (simp add: path_inv_def wall_entries_def)

lemma bfs_correct:
  assumes "wf_grid grid" "rows = int (length grid)" "cols = int (length (hd grid))"
    "portals = findPortals grid" "in_grid grid start" "0 \<le> K"
    "bfs_inv grid K start goal V Q" "\<forall>n\<in>set Q. path_inv grid K start n"
  shows "search_result_ok grid K start goal (bfs grid rows cols K goal portals V Q)"
  using assms
proof (induction grid rows cols K goal portals V Q rule: bfs.induct)
  case (1 grid rows cols K goal portals V)
  show ?case unfolding search_result_ok_def using bfs_inv_empty[OF "1.prems"(7)] by auto
next
  case (2 grid rows cols K goal portals V cur Q)
  note wf = "2.prems"(1) and rows = "2.prems"(2) and cols = "2.prems"(3)
    and portals = "2.prems"(4) and s = "2.prems"(5) and K = "2.prems"(6)
    and inv = "2.prems"(7) and pinv = "2.prems"(8)
  have ncur: "node_inv grid K start V cur" using inv by (simp add: bfs_inv_def)
  have pcur: "path_inv grid K start cur" using pinv by simp
  from ncur have "reach grid K start (nat (steps cur)) (visitKey cur)" by (simp add: node_inv_def)
  from reach_bounds[OF wf s K this]
  have ing: "in_grid grid (node_x cur, node_y cur)" and bK: "breaksUsed cur \<le> K"
    by (simp_all add: key_pos_def visitKey_def)
  from cell_at_in_grid[OF wf ing] obtain cell where
    cell: "cell_at grid (node_x cur) (node_y cur) = Some cell" by blast
  show ?case
  proof (cases "node_x cur = fst goal \<and> node_y cur = snd goal")
    case True
    then have g: "(node_x cur, node_y cur) = goal" by (cases goal) simp
    have ap: "action_path grid K start goal (path cur)"
      using pcur g unfolding path_inv_def action_path_def by simp
    have len: "int (length (path cur)) = steps cur + 1" using pcur by (simp add: path_inv_def)
    have "steps cur \<le> int d" if "reach grid K start d k" "key_pos k = goal" for d k
      by (rule bfs_inv_found[OF inv that])
    then show ?thesis using True ap len unfolding search_result_ok_def by auto
  next
    case False
    then have ng: "key_pos (visitKey cur) \<noteq> goal"
      by (cases goal) (auto simp: key_pos_def visitKey_def)
    from expand_spec[OF wf rows cols cell bK, of "(V, Q)"] obtain vq' where
      e: "expand grid rows cols K (findPortals grid) cell cur (V, Q) = Inr vq'"
      and ex: "expanded grid K cur (V, Q) vq'" by blast
    obtain V' Q' where vq': "vq' = (V', Q')" by (cases vq')
    have inv': "bfs_inv grid K start goal V' Q'"
      by (rule bfs_inv_step[OF inv ng ex[unfolded vq']])
    from ex[unfolded vq'] obtain new where new: "Q' = Q @ new"
      "\<And>n. n \<in> set new \<Longrightarrow> child grid K cur n"
      unfolding expanded_def by (auto elim: pushedE)
    have pinv': "\<forall>n\<in>set Q'. path_inv grid K start n"
      using pinv new path_inv_child[OF pcur] by auto
    have "search_result_ok grid K start goal (bfs grid rows cols K goal portals V' Q')"
      by (rule "2.IH"[OF False cell e[folded portals, unfolded vq'] refl wf rows cols portals s K inv' pinv'])
    moreover have "bfs grid rows cols K goal portals V (cur # Q) = bfs grid rows cols K goal portals V' Q'"
      by (subst bfs.simps(2), subst if_not_P[OF False]) (simp add: cell e[folded portals] vq')
    ultimately show ?thesis by simp
  qed
qed

lemma solveMaze_missing:
  assumes "start_cells grid = [] \<or> goal_cells grid = []"
  shows "solveMaze grid K = Inr None"
  using assms unfolding solveMaze_def findEndpoints_eq by auto

lemma solveMaze_search:
  assumes wf: "wf_grid grid" and K: "0 \<le> K" and fe: "findEndpoints grid = (Some start, Some goal)"
  shows "search_result_ok grid K start goal (solveMaze grid K)"
proof -
  from findEndpoints_Some[OF wf fe] have s: "in_grid grid start" and ne: "grid \<noteq> []" by simp_all
  then obtain row0 rest where g: "grid = row0 # rest" by (cases grid) auto
  have eq: "solveMaze grid K =
      bfs grid (int (length grid)) (int (length (hd grid))) K goal (findPortals grid)
        {(fst start, snd start, 0)}
        [\<lparr>node_x = fst start, node_y = snd start, breaksUsed = 0, steps = 0,
          path = [(fst start, snd start)]\<rparr>]"
    unfolding solveMaze_def fe by (simp add: g)
  show ?thesis unfolding eq
    by (rule bfs_correct[OF wf refl refl refl s K bfs_inv_init])
       (use path_inv_init[OF K, of grid start] in simp)
qed

lemma search_result_ok_paths:
  assumes "search_result_ok grid K start goal r" "action_path grid K start goal ps"
  shows "\<exists>s p. r = Inr (Some (s, p)) \<and> s + 1 \<le> int (length ps)"
proof -
  from assms(2) have ps: "ps \<noteq> []" "hd ps = start" "last ps = goal" "steps_legal grid ps"
    "wall_entries grid ps \<le> K" by (simp_all add: action_path_def)
  from path_reach[OF ps(1,2,4,5)]
  have r: "reach grid K start (length ps - 1) (fst goal, snd goal, wall_entries grid ps)"
    by (simp add: ps(3))
  have kp: "key_pos (fst goal, snd goal, wall_entries grid ps) = goal" by (simp add: key_pos_def)
  show ?thesis
  proof (cases r)
    case (Inl e)
    then show ?thesis using assms(1) by (simp add: search_result_ok_def)
  next
    case (Inr o1)
    show ?thesis
    proof (cases o1)
      case None
      then show ?thesis using assms(1) Inr r kp unfolding search_result_ok_def by auto
    next
      case (Some sp)
      obtain s p where sp: "sp = (s, p)" by (cases sp)
      from assms(1) have "\<forall>d k. reach grid K start d k \<and> key_pos k = goal \<longrightarrow> s \<le> int d"
        unfolding search_result_ok_def Inr Some sp by simp
      with r kp have "s \<le> int (length ps - 1)" by blast
      then have "s + 1 \<le> int (length ps)" using ps(1) by (cases ps) auto
      then show ?thesis using Inr Some sp by simp
    qed
  qed
qed

section \<open>The enqueued states\<close>

lemma pushed_moves_frontier:
  assumes "\<And>dir nb. dir \<in> set dirs \<Longrightarrow> 0 \<le> node_x cur + fst dir \<Longrightarrow> node_x cur + fst dir < cols \<Longrightarrow>
           0 \<le> node_y cur + snd dir \<Longrightarrow> node_y cur + snd dir < rows \<Longrightarrow>
           cell_at grid (node_x cur + fst dir) (node_y cur + snd dir) = Some nb \<Longrightarrow>
           (if cell_type nb = Wall then breaksUsed cur + 1 else breaksUsed cur) \<le> K \<Longrightarrow>
           P \<lparr>node_x = node_x cur + fst dir, node_y = node_y cur + snd dir,
              breaksUsed = (if cell_type nb = Wall then breaksUsed cur + 1 else breaksUsed cur),
              steps = steps cur + 1, path = path cur @ [(node_x cur + fst dir, node_y cur + snd dir)]\<rparr>"
  shows "pushed P vq (moves_frontier grid rows cols K cur dirs vq)"
  using assms
proof (induction dirs arbitrary: vq)
  case Nil
  show ?case by (simp add: pushed_refl)
next
  case (Cons d ds)
  show ?case
  proof (cases "try_move grid rows cols K cur d vq")
    case (Inl e)
    then show ?thesis by (simp add: pushed_refl)
  next
    case (Inr vq1)
    have 1: "pushed P vq vq1"
      by (rule pushed_try_move[OF Inr]) (rule Cons.prems, simp_all)
    have 2: "pushed P vq1 (moves_frontier grid rows cols K cur ds vq1)"
      by (rule Cons.IH) (rule Cons.prems, simp_all)
    show ?thesis using pushed_trans[OF 1 2] Inr by simp
  qed
qed

lemma moves_frontier_eq:
  "try_moves grid rows cols K cur dirs vq = Inr vq' \<Longrightarrow>
   moves_frontier grid rows cols K cur dirs vq = vq'"
  by (induction dirs arbitrary: vq) (auto split: sum.splits)

lemma expand_frontier_eq:
  "expand grid rows cols K portals cell cur vq = Inr vq' \<Longrightarrow>
   expand_frontier grid rows cols K portals cell cur vq = vq'"
  unfolding expand_def expand_frontier_def by (rule moves_frontier_eq)

lemma expand_frontier_in_space:
  "pushed (child_in_space rows cols K portals cur) vq
     (expand_frontier grid rows cols K portals cell cur vq)"
proof -
  have 1: "pushed (child_in_space rows cols K portals cur) vq (try_teleport portals cell cur vq)"
  proof (rule pushed_try_teleport)
    fix c pair d assume "portals c = Some pair" "d \<in> set pair"
    then have "d \<in> portal_dests portals" unfolding portal_dests_def by (intro UN_I[of c]) simp_all
    then show "child_in_space rows cols K portals cur
       \<lparr>node_x = fst d, node_y = snd d, breaksUsed = breaksUsed cur,
        steps = steps cur + 1, path = path cur @ [(fst d, snd d)]\<rparr>"
      by (simp add: child_in_space_def search_positions_def)
  qed
  have 2: "pushed (child_in_space rows cols K portals cur) (try_teleport portals cell cur vq)
             (expand_frontier grid rows cols K portals cell cur vq)"
    unfolding expand_frontier_def
    by (rule pushed_moves_frontier)
       (auto simp: child_in_space_def search_positions_def split: if_splits)
  show ?thesis by (rule pushed_trans[OF 1 2])
qed

lemma bfs_enqueued_props:
  assumes "\<And>cur cell V Q. P cur \<Longrightarrow>
             pushed P (V, Q) (expand_frontier grid rows cols K portals cell cur (V, Q))"
    and "\<forall>n\<in>set Q. P n"
  shows "distinct (map visitKey (bfs_enqueued grid rows cols K goal portals V Q)) \<and>
         visitKey ` set (bfs_enqueued grid rows cols K goal portals V Q) \<inter> V = {} \<and>
         (\<forall>n\<in>set (bfs_enqueued grid rows cols K goal portals V Q). P n)"
  using assms
proof (induction grid rows cols K goal portals V Q rule: bfs_enqueued.induct)
  case (1 grid rows cols K goal portals V)
  show ?case by simp
next
  case (2 grid rows cols K goal portals V cur Q)
  show ?case
  proof (cases "node_x cur = fst goal \<and> node_y cur = snd goal")
    case True
    then show ?thesis by simp
  next
    case False
    show ?thesis
    proof (cases "cell_at grid (node_x cur) (node_y cur)")
      case None
      then show ?thesis using False by simp
    next
      case (Some cell)
      have Pcur: "P cur" using "2.prems"(2) by simp
      obtain V' Q' where fr: "expand_frontier grid rows cols K portals cell cur (V, Q) = (V', Q')"
        by (cases "expand_frontier grid rows cols K portals cell cur (V, Q)")
      have "pushed P (V, Q) (expand_frontier grid rows cols K portals cell cur (V, Q))"
        by (rule "2.prems"(1)[OF Pcur])
      then obtain new where new: "Q' = Q @ new"
        "V' = V \<union> visitKey ` set new" "distinct (map visitKey new)"
        "visitKey ` set new \<inter> V = {}" "\<And>n. n \<in> set new \<Longrightarrow> P n"
        unfolding fr by (auto elim: pushedE)
      show ?thesis
      proof (cases "expand grid rows cols K portals cell cur (V, Q)")
        case (Inl e)
        have eq: "bfs_enqueued grid rows cols K goal portals V (cur # Q) = new"
          by (subst bfs_enqueued.simps(2), subst if_not_P[OF False]) (simp add: Some Inl fr new(1))
        show ?thesis unfolding eq using new by auto
      next
        case (Inr vq')
        have vq': "vq' = (V', Q')" using expand_frontier_eq[OF Inr] fr by simp
        have PQ': "\<forall>n\<in>set Q'. P n" using "2.prems"(2) new(1,5) by auto
        let ?T = "bfs_enqueued grid rows cols K goal portals V' Q'"
        have IH: "distinct (map visitKey ?T) \<and> visitKey ` set ?T \<inter> V' = {} \<and> (\<forall>n\<in>set ?T. P n)"
          by (rule "2.IH"[OF False Some Inr[unfolded vq'] refl "2.prems"(1) PQ'])
        have eq: "bfs_enqueued grid rows cols K goal portals V (cur # Q) = new @ ?T"
          by (subst bfs_enqueued.simps(2), subst if_not_P[OF False]) (simp add: Some Inr vq' new(1))
        show ?thesis unfolding eq using IH new by auto
      qed
    qed
  qed
qed

lemma search_positions_in_grid:
  assumes wf: "wf_grid grid" and p: "p \<in> search_positions (int (length grid)) (int (length (hd grid))) (findPortals grid)"
  shows "in_grid grid p"
proof -
  from p consider "p \<in> {0..<int (length (hd grid))} \<times> {0..<int (length grid)}"
    | "p \<in> portal_dests (findPortals grid)" unfolding search_positions_def by auto
  then show ?thesis
  proof cases
    case 1
    then show ?thesis by (auto simp: in_grid_def)
  next
    case 2
    then obtain c pair where "findPortals grid c = Some pair" "p \<in> set pair"
      unfolding portal_dests_def by (auto split: option.splits)
    from findPortals_sound[OF wf this] cell_at_Some_in_grid[OF wf, of "fst p" "snd p"]
    show ?thesis by auto
  qed
qed

lemma frontier_state_ok:
  assumes wf: "wf_grid grid" and ok: "state_ok grid K cur"
  shows "pushed (state_ok grid K) vq
           (expand_frontier grid (int (length grid)) (int (length (hd grid))) K (findPortals grid) cell cur vq)"
proof (rule pushed_mono[OF expand_frontier_in_space])
  fix n assume "child_in_space (int (length grid)) (int (length (hd grid))) K (findPortals grid) cur n"
  then show "state_ok grid K n"
    using ok search_positions_in_grid[OF wf, of "(node_x n, node_y n)"]
    unfolding child_in_space_def state_ok_def by auto
qed

lemma frontier_within_budget:
  assumes ok: "within_budget K cur"
  shows "pushed (within_budget K) vq (expand_frontier grid rows cols K portals cell cur vq)"
proof (rule pushed_mono[OF expand_frontier_in_space])
  fix n assume "child_in_space rows cols K portals cur n"
  then show "within_budget K n"
    using ok unfolding child_in_space_def within_budget_def by auto
qed

lemma frontier_breaks_step:
  assumes n: "n \<in> set (drop (length Q) (snd (expand_frontier grid rows cols K portals cell cur (V, Q))))"
  shows "breaksUsed n = breaksUsed cur \<or> breaksUsed n = breaksUsed cur + 1"
proof -
  obtain V' Q' where fr: "expand_frontier grid rows cols K portals cell cur (V, Q) = (V', Q')"
    by (cases "expand_frontier grid rows cols K portals cell cur (V, Q)")
  have "pushed (child_in_space rows cols K portals cur) (V, Q)
          (expand_frontier grid rows cols K portals cell cur (V, Q))"
    by (rule expand_frontier_in_space)
  then obtain new where
    "Q' = Q @ new" "\<And>n. n \<in> set new \<Longrightarrow> child_in_space rows cols K portals cur n"
    unfolding fr by (auto elim: pushedE)
  then show ?thesis using n unfolding fr child_in_space_def by auto
qed

lemma solveMaze_enqueued_props:
  assumes K: "0 \<le> K"
  shows "distinct (map visitKey (solveMaze_enqueued grid K))"
    and "\<forall>n\<in>set (solveMaze_enqueued grid K). within_budget K n"
    and "wf_grid grid \<Longrightarrow> \<forall>n\<in>set (solveMaze_enqueued grid K). state_ok grid K n"
proof -
  show "distinct (map visitKey (solveMaze_enqueued grid K))"
    and "\<forall>n\<in>set (solveMaze_enqueued grid K). within_budget K n"
  proof -
    have "distinct (map visitKey (solveMaze_enqueued grid K)) \<and>
          (\<forall>n\<in>set (solveMaze_enqueued grid K). within_budget K n)"
    proof (cases "findEndpoints grid")
      case (Pair so go)
      show ?thesis
      proof (cases "\<exists>start goal row0 rest. so = Some start \<and> go = Some goal \<and> grid = row0 # rest")
        case False
        then have "solveMaze_enqueued grid K = []"
          unfolding solveMaze_enqueued_def Pair by (auto split: option.splits list.splits)
        then show ?thesis by simp
      next
        case True
        then obtain start goal row0 rest where
          sg: "so = Some start" "go = Some goal" "grid = row0 # rest" by blast
        let ?n0 = "\<lparr>node_x = fst start, node_y = snd start, breaksUsed = 0, steps = 0,
                     path = [(fst start, snd start)]\<rparr>"
        let ?T = "bfs_enqueued grid (int (length grid)) (int (length row0)) K goal (findPortals grid)
                    {(fst start, snd start, 0)} [?n0]"
        have eq: "solveMaze_enqueued grid K = ?n0 # ?T"
          unfolding solveMaze_enqueued_def Pair sg(1,2) by (simp add: sg(3))
        have "distinct (map visitKey ?T) \<and> visitKey ` set ?T \<inter> {(fst start, snd start, 0)} = {} \<and>
              (\<forall>n\<in>set ?T. within_budget K n)"
          by (rule bfs_enqueued_props[where P="within_budget K"])
             (auto intro: frontier_within_budget simp: within_budget_def K)
        then show ?thesis unfolding eq using K by (auto simp: visitKey_def within_budget_def)
      qed
    qed
    then show "distinct (map visitKey (solveMaze_enqueued grid K))"
      and "\<forall>n\<in>set (solveMaze_enqueued grid K). within_budget K n" by simp_all
  qed
  assume wf: "wf_grid grid"
  show "\<forall>n\<in>set (solveMaze_enqueued grid K). state_ok grid K n"
  proof (cases "findEndpoints grid")
    case (Pair so go)
    show ?thesis
    proof (cases "\<exists>start goal. so = Some start \<and> go = Some goal")
      case False
      then have "solveMaze_enqueued grid K = []"
        unfolding solveMaze_enqueued_def Pair by (auto split: option.splits list.splits)
      then show ?thesis by simp
    next
      case True
      then obtain start goal where sg: "so = Some start" "go = Some goal" by blast
      from findEndpoints_Some[OF wf Pair[unfolded sg]] have s: "in_grid grid start" "grid \<noteq> []"
        by simp_all
      then obtain row0 rest where g: "grid = row0 # rest" by (cases grid) auto
      let ?n0 = "\<lparr>node_x = fst start, node_y = snd start, breaksUsed = 0, steps = 0,
                   path = [(fst start, snd start)]\<rparr>"
      let ?T = "bfs_enqueued grid (int (length grid)) (int (length (hd grid))) K goal (findPortals grid)
                  {(fst start, snd start, 0)} [?n0]"
      have eq: "solveMaze_enqueued grid K = ?n0 # ?T"
        unfolding solveMaze_enqueued_def Pair sg(1,2) by (simp add: g)
      have n0: "state_ok grid K ?n0" using s K by (simp add: state_ok_def)
      have "distinct (map visitKey ?T) \<and> visitKey ` set ?T \<inter> {(fst start, snd start, 0)} = {} \<and>
            (\<forall>n\<in>set ?T. state_ok grid K n)"
        by (rule bfs_enqueued_props[where P="state_ok grid K"])
           (use n0 in \<open>auto intro: frontier_state_ok[OF wf]\<close>)
      then show ?thesis unfolding eq using n0 by auto
    qed
  qed
qed



section \<open>The generator\<close>

lemma finite_lattice: "finite lattice"
proof -
  have "lattice \<subseteq> {0..GRID_SIZE} \<times> {0..GRID_SIZE}" unfolding lattice_def by auto
  then show ?thesis by (rule finite_subset) simp
qed

lemma carve_neighbors_set:
  assumes "(nx, ny, dx, dy) \<in> set (carve_neighbors visited x y)"
  shows "(nx, ny) \<in> lattice" "(nx, ny) \<notin> visited"
    "(dx, dy) \<in> {(0, -1), (0, 1), (-1, 0), (1, 0)}" "nx = x + 2 * dx" "ny = y + 2 * dy"
  using assms unfolding carve_neighbors_def CARVE_DIRECTIONS_def lattice_def Let_def
  by (auto split: if_splits)

lemma carve_measure_push:
  assumes "p \<in> lattice" "p \<notin> visited"
  shows "carve_measure (stack @ [p]) (insert p visited) < carve_measure stack visited"
proof -
  have "lattice - insert p visited = (lattice - visited) - {p}" by auto
  moreover have "p \<in> lattice - visited" using assms by simp
  moreover have "finite (lattice - visited)" using finite_lattice by simp
  ultimately have "card (lattice - insert p visited) < card (lattice - visited)"
    by (metis card_Diff1_less)
  then show ?thesis unfolding carve_measure_def by simp
qed

termination carve
proof (relation "measure (\<lambda>(pick, i, grid, stack, visited). carve_measure stack visited)", goal_cases)
  case 1
  show ?case by simp
next
  case (2 pick i grid stack visited x y neighbors nx rest ny rest2 dx dy grid1 grid2)
  have "neighbors ! (pick i mod length neighbors) \<in> set neighbors" using 2(5) by simp
  then have "(nx, ny, dx, dy) \<in> set (carve_neighbors visited x y)"
    using 2(4,6,7,8) by simp
  from carve_neighbors_set(1,2)[OF this] carve_measure_push[of "(nx, ny)" visited stack]
  show ?case by simp
next
  case (3 pick i grid stack visited x y neighbors)
  then show ?case by (simp add: carve_measure_def)
qed

declare carve.simps [simp del]

lemma discovered_refl: "discovered P dq dq"
  unfolding discovered_def by (rule exI[of _ "[]"]) simp

lemma discovered_trans:
  assumes "discovered P a b" "discovered P b c"
  shows "discovered P a c"
proof -
  from assms(1) obtain n1 where 1: "snd b = snd a @ n1" "dom (fst b) = dom (fst a) \<union> key_pos ` set n1"
    "distinct (map key_pos n1)" "key_pos ` set n1 \<inter> dom (fst a) = {}" "\<And>e. e \<in> set n1 \<Longrightarrow> P e"
    unfolding discovered_def by auto
  from assms(2) obtain n2 where 2: "snd c = snd b @ n2" "dom (fst c) = dom (fst b) \<union> key_pos ` set n2"
    "distinct (map key_pos n2)" "key_pos ` set n2 \<inter> dom (fst b) = {}" "\<And>e. e \<in> set n2 \<Longrightarrow> P e"
    unfolding discovered_def by auto
  show ?thesis unfolding discovered_def
  proof (intro exI[of _ "n1 @ n2"] conjI)
    show "snd c = snd a @ n1 @ n2" by (simp add: 1 2)
    show "dom (fst c) = dom (fst a) \<union> key_pos ` set (n1 @ n2)" by (simp add: 1 2 image_Un Un_assoc)
    show "distinct (map key_pos (n1 @ n2))" using 1(3) 2(3) 2(4) unfolding 1(2) by auto
    show "key_pos ` set (n1 @ n2) \<inter> dom (fst a) = {}" using 1(4) 2(4) unfolding 1(2) by auto
    show "\<forall>e\<in>set (n1 @ n2). P e" using 1(5) 2(5) by auto
  qed
qed

lemma discovered_visit_move:
  assumes "visit_move grid (cx, cy, d) m dq = Inr dq'"
    and "\<And>c. 0 \<le> cx + fst m \<Longrightarrow> cx + fst m < GRID_SIZE \<Longrightarrow> 0 \<le> cy + snd m \<Longrightarrow>
           cy + snd m < GRID_SIZE \<Longrightarrow> cell_at grid (cx + fst m) (cy + snd m) = Some c \<Longrightarrow>
           cell_type c = Empty \<Longrightarrow> P (cx + fst m, cy + snd m, d + 1)"
  shows "discovered P dq dq'"
proof (cases "dq' = dq")
  case True
  then show ?thesis by (simp add: discovered_refl)
next
  case False
  with assms(1) obtain c where c: "0 \<le> cx + fst m" "cx + fst m < GRID_SIZE" "0 \<le> cy + snd m"
    "cy + snd m < GRID_SIZE" "cell_at grid (cx + fst m) (cy + snd m) = Some c" "cell_type c = Empty"
    "fst dq (cx + fst m, cy + snd m) = None"
    "dq' = ((fst dq)((cx + fst m, cy + snd m) \<mapsto> d + 1), snd dq @ [(cx + fst m, cy + snd m, d + 1)])"
    unfolding visit_move_def Let_def by (auto split: if_splits option.splits)
  have P: "P (cx + fst m, cy + snd m, d + 1)" by (rule assms(2)[OF c(1-6)])
  show ?thesis unfolding discovered_def c(8)
    by (rule exI[of _ "[(cx + fst m, cy + snd m, d + 1)]"]) (use c(7) P in \<open>auto simp: key_pos_def\<close>)
qed

lemma discovered_moves:
  assumes "for_each (visit_move grid (cx, cy, d)) ms dq = Inr dq'"
    and "\<And>m c. m \<in> set ms \<Longrightarrow> 0 \<le> cx + fst m \<Longrightarrow> cx + fst m < GRID_SIZE \<Longrightarrow> 0 \<le> cy + snd m \<Longrightarrow>
           cy + snd m < GRID_SIZE \<Longrightarrow> cell_at grid (cx + fst m) (cy + snd m) = Some c \<Longrightarrow>
           cell_type c = Empty \<Longrightarrow> P (cx + fst m, cy + snd m, d + 1)"
  shows "discovered P dq dq'"
  using assms
proof (induction ms arbitrary: dq)
  case Nil
  then show ?case by (simp add: discovered_refl)
next
  case (Cons m ms)
  from Cons.prems(1) obtain dq1 where 1: "visit_move grid (cx, cy, d) m dq = Inr dq1"
    and 2: "for_each (visit_move grid (cx, cy, d)) ms dq1 = Inr dq'"
    by (auto split: sum.splits)
  have a: "discovered P dq dq1"
    by (rule discovered_visit_move[OF 1]) (rule Cons.prems(2), simp_all)
  have b: "discovered P dq1 dq'"
    by (rule Cons.IH[OF 2]) (rule Cons.prems(2), simp_all)
  show ?case by (rule discovered_trans[OF a b])
qed

lemma find_goal_measure_decreases:
  assumes "discovered (\<lambda>e. key_pos e \<in> board) (dists, q) (dists', q')"
  shows "find_goal_measure dists' q' < find_goal_measure dists (cur # q)"
proof -
  from assms obtain new where new: "q' = q @ new" "dom dists' = dom dists \<union> key_pos ` set new"
    "distinct (map key_pos new)" "key_pos ` set new \<inter> dom dists = {}"
    "\<And>e. e \<in> set new \<Longrightarrow> key_pos e \<in> board"
    unfolding discovered_def by auto
  have fin: "finite (board - dom dists)" unfolding board_def by simp
  have keys: "key_pos ` set new \<subseteq> board - dom dists" using new(4,5) by auto
  have cardnew: "card (key_pos ` set new) = length new" using distinct_card[OF new(3)] by simp
  have "board - dom dists' = (board - dom dists) - key_pos ` set new" using new(2) by auto
  then have "card (board - dom dists') = card (board - dom dists) - length new"
    using keys fin cardnew by (simp add: card_Diff_subset finite_subset)
  moreover have "length new \<le> card (board - dom dists)"
    using card_mono[OF fin keys] cardnew by simp
  ultimately show ?thesis unfolding find_goal_measure_def new(1) by simp
qed

lemma for_each_moves_board:
  assumes "for_each (visit_move grid cur) GOAL_MOVES (dists, q) = Inr (dists', q')"
  shows "discovered (\<lambda>e. key_pos e \<in> board) (dists, q) (dists', q')"
proof -
  obtain cx cy d where cur: "cur = (cx, cy, d)" by (cases cur)
  show ?thesis
    by (rule discovered_moves[OF assms[unfolded cur]]) (simp add: key_pos_def board_def)
qed

termination find_goal
proof (relation "measure (\<lambda>(grid, dists, q, bestDist, goalPos). find_goal_measure dists q)", goal_cases)
  case 1
  show ?case by simp
next
  case (2 grid dists cur q bestDist goalPos best dq dists' q')
  then have "for_each (visit_move grid cur) GOAL_MOVES (dists, q) = Inr (dists', q')" by simp
  from find_goal_measure_decreases[OF for_each_moves_board[OF this]] show ?case by simp
qed

lemma list_all_enumerate:
  "list_all P (enumerate 0 xs) \<longleftrightarrow> (\<forall>i<length xs. P (i, xs ! i))"
proof
  assume a: "list_all P (enumerate 0 xs)"
  show "\<forall>i<length xs. P (i, xs ! i)"
  proof (intro allI impI)
    fix i assume "i < length xs"
    then have "(i, xs ! i) \<in> set (enumerate 0 xs)" by (simp add: in_set_enumerate_eq)
    with a show "P (i, xs ! i)" unfolding list_all_iff by blast
  qed
next
  assume a: "\<forall>i<length xs. P (i, xs ! i)"
  show "list_all P (enumerate 0 xs)"
    unfolding list_all_iff
  proof
    fix p assume "p \<in> set (enumerate 0 xs)"
    then have "fst p < length xs" "xs ! fst p = snd p" by (simp_all add: in_set_enumerate_eq)
    with a have "P (fst p, snd p)" by metis
    then show "P p" by simp
  qed
qed

lemma wf_gridI:
  assumes "\<And>j. j < length g \<Longrightarrow> length (g ! j) = length (hd g)"
    and "\<And>j i. j < length g \<Longrightarrow> i < length (g ! j) \<Longrightarrow>
           cell_x (g ! j ! i) = int i \<and> cell_y (g ! j ! i) = int j"
  shows "wf_grid g"
  unfolding wf_grid_def list_all_enumerate using assms by simp

lemma board_iff: "p \<in> board \<longleftrightarrow> 0 \<le> fst p \<and> fst p < GRID_SIZE \<and> 0 \<le> snd p \<and> snd p < GRID_SIZE"
  unfolding board_def by (cases p) auto

lemma gen_grid_cell_at:
  assumes "gen_grid g" "(x, y) \<in> board"
  shows "\<exists>c. cell_at g x y = Some c \<and> cell_x c = x \<and> cell_y c = y"
proof -
  from assms(2) have b: "0 \<le> x" "x < GRID_SIZE" "0 \<le> y" "y < GRID_SIZE" by (simp_all add: board_iff)
  have len: "int (length g) = GRID_SIZE" using assms(1) by (simp add: gen_grid_def)
  then have "g ! nat y \<in> set g" using b by simp
  then have "int (length (g ! nat y)) = GRID_SIZE" using assms(1) by (simp add: gen_grid_def)
  then have "cell_at g x y = Some (g ! nat y ! nat x)" using b len by (simp add: cell_at_def)
  then show ?thesis using assms(1) unfolding gen_grid_def by blast
qed

lemma gen_grid_cell_at_board:
  assumes "gen_grid g" "cell_at g x y = Some c"
  shows "(x, y) \<in> board"
proof -
  from assms(2) have b: "0 \<le> y" "y < int (length g)" "0 \<le> x" "x < int (length (g ! nat y))"
    by (auto simp: cell_at_def Let_def split: if_splits)
  then have "g ! nat y \<in> set g" by simp
  then have "int (length (g ! nat y)) = GRID_SIZE" using assms(1) by (simp add: gen_grid_def)
  then show ?thesis using b assms(1) by (simp add: board_iff gen_grid_def)
qed

lemma gen_grid_wf:
  assumes "gen_grid g"
  shows "wf_grid g" "length g = 10" "length (hd g) = 10"
proof -
  have len: "length g = 10" using assms by (simp add: gen_grid_def GRID_SIZE_def)
  have rows: "\<And>j. j < length g \<Longrightarrow> length (g ! j) = 10"
    using assms by (simp add: gen_grid_def GRID_SIZE_def)
  have "g \<noteq> []" using len by auto
  then have hd: "length (hd g) = 10" using rows[of 0] len by (simp add: hd_conv_nth)
  show "length g = 10" by (rule len)
  show "length (hd g) = 10" by (rule hd)
  show "wf_grid g"
  proof (rule wf_gridI)
    fix j assume "j < length g"
    then show "length (g ! j) = length (hd g)" using rows hd by simp
  next
    fix j i assume ji: "j < length g" "i < length (g ! j)"
    then have "cell_at g (int i) (int j) = Some (g ! j ! i)" by (simp add: cell_at_def)
    then show "cell_x (g ! j ! i) = int i \<and> cell_y (g ! j ! i) = int j"
      using assms unfolding gen_grid_def by blast
  qed
qed

lemma gen_grid_in_grid: "gen_grid g \<Longrightarrow> in_grid g p \<longleftrightarrow> p \<in> board"
  using gen_grid_wf(2,3)[of g] by (simp add: in_grid_def board_iff GRID_SIZE_def)

lemma update_cell_gen:
  assumes g: "gen_grid g" and b: "(x, y) \<in> board"
    and f: "\<And>c. cell_x (f c) = cell_x c \<and> cell_y (f c) = cell_y c"
  shows "\<exists>g' c. update_cell g x y f = Inr g' \<and> gen_grid g' \<and> cell_at g x y = Some c \<and>
           (\<forall>x' y'. cell_at g' x' y' = (if x' = x \<and> y' = y then Some (f c) else cell_at g x' y'))"
proof -
  from gen_grid_cell_at[OF g b] obtain c where c: "cell_at g x y = Some c" by blast
  let ?g' = "g[nat y := (g ! nat y)[nat x := f c]]"
  have u: "update_cell g x y f = Inr ?g'" by (simp add: update_cell_def c)
  from b have bb: "0 \<le> x" "x < GRID_SIZE" "0 \<le> y" "y < GRID_SIZE" by (simp_all add: board_iff)
  have len: "int (length g) = GRID_SIZE" using g by (simp add: gen_grid_def)
  have rows: "\<And>j. j < length g \<Longrightarrow> int (length (g ! j)) = GRID_SIZE"
    using g by (simp add: gen_grid_def)
  have at: "cell_at ?g' x' y' = (if x' = x \<and> y' = y then Some (f c) else cell_at g x' y')" for x' y'
  proof (cases "0 \<le> y' \<and> y' < int (length g)")
    case False
    then show ?thesis using bb len by (auto simp: cell_at_def)
  next
    case True
    show ?thesis
    proof (cases "y' = y")
      case False
      then have "nat y' \<noteq> nat y" using True bb by auto
      then show ?thesis using True False by (simp add: cell_at_def)
    next
      case y: True
      have ny: "nat y < length g" using bb len by simp
      show ?thesis
      proof (cases "0 \<le> x' \<and> x' < int (length (g ! nat y))")
        case False
        then show ?thesis using True y ny rows[OF ny] bb by (auto simp: cell_at_def)
      next
        case x: True
        show ?thesis
        proof (cases "x' = x")
          case True
          have "nat x < length (g ! nat y)" using x True by linarith
          then show ?thesis using True y ny x \<open>0 \<le> y' \<and> y' < int (length g)\<close>
            by (simp add: cell_at_def)
        next
          case False
          then have "nat x' \<noteq> nat x" using x bb by auto
          then show ?thesis using y ny x False \<open>0 \<le> y' \<and> y' < int (length g)\<close>
            by (simp add: cell_at_def)
        qed
      qed
    qed
  qed
  have gg: "gen_grid ?g'"
    unfolding gen_grid_def
  proof (intro conjI ballI allI impI)
    show "int (length ?g') = GRID_SIZE" using len by simp
  next
    fix row assume "row \<in> set ?g'"
    then obtain j where j: "j < length g" "row = ?g' ! j" by (auto simp: in_set_conv_nth)
    then show "int (length row) = GRID_SIZE" using rows[of j] rows[of "nat y"]
      by (cases "j = nat y") simp_all
  next
    fix x' y' c' assume a: "cell_at ?g' x' y' = Some c'"
    show "cell_x c' = x'"
      using a g c f unfolding at gen_grid_def by (auto split: if_splits)
    show "cell_y c' = y'"
      using a g c f unfolding at gen_grid_def by (auto split: if_splits)
  qed
  show ?thesis using u gg c at by blast
qed

lemma set_type_gen:
  assumes "gen_grid g" "(x, y) \<in> board"
  shows "\<exists>g'. set_type g x y t = Inr g' \<and> gen_grid g' \<and> type_at g' = (type_at g)((x, y) \<mapsto> t)"
proof -
  from update_cell_gen[OF assms, of "\<lambda>c. c\<lparr>cell_type := t\<rparr>"] obtain g' c where
    u: "set_type g x y t = Inr g'" "gen_grid g'" "cell_at g x y = Some c"
    and at: "\<And>x' y'. cell_at g' x' y' = (if x' = x \<and> y' = y then Some (c\<lparr>cell_type := t\<rparr>) else cell_at g x' y')"
    unfolding set_type_def by auto
  have "type_at g' = (type_at g)((x, y) \<mapsto> t)"
    by (rule ext) (auto simp: type_at_def at)
  then show ?thesis using u by blast
qed

lemma set_portalColor_gen:
  assumes "gen_grid g" "(x, y) \<in> board"
  shows "\<exists>g'. set_portalColor g x y col = Inr g' \<and> gen_grid g' \<and> type_at g' = type_at g"
proof -
  from update_cell_gen[OF assms, of "\<lambda>c. c\<lparr>portalColor := Some col\<rparr>"] obtain g' c where
    u: "set_portalColor g x y col = Inr g'" "gen_grid g'" "cell_at g x y = Some c"
    and at: "\<And>x' y'. cell_at g' x' y' = (if x' = x \<and> y' = y then Some (c\<lparr>portalColor := Some col\<rparr>) else cell_at g x' y')"
    unfolding set_portalColor_def by auto
  have "type_at g' = type_at g"
    by (rule ext) (auto simp: type_at_def at u(3))
  then show ?thesis using u by blast
qed

lemma upto_nth: "0 \<le> k \<Longrightarrow> k < GRID_SIZE \<Longrightarrow> [0..GRID_SIZE - 1] ! nat k = k"
  by (simp add: GRID_SIZE_def nth_upto)

lemma wall_grid_cell_at:
  "cell_at (wall_grid ids) x y =
     (if (x, y) \<in> board then
        Some \<lparr>cell_x = x, cell_y = y, cell_type = Wall, portalColor = None, cell_id = ids x y\<rparr>
      else None)"
proof (cases "(x, y) \<in> board")
  case False
  then show ?thesis
    by (auto simp: cell_at_def wall_grid_def board_iff GRID_SIZE_def Let_def)
next
  case True
  then have b: "0 \<le> x" "x < GRID_SIZE" "0 \<le> y" "y < GRID_SIZE" by (simp_all add: board_iff)
  have l: "length [0..GRID_SIZE - 1] = 10" by (simp add: GRID_SIZE_def)
  have ny: "nat y < 10" "nat x < 10" using b by (simp_all add: GRID_SIZE_def)
  show ?thesis using True b ny upto_nth[OF b(1,2)] upto_nth[OF b(3,4)]
    by (simp add: cell_at_def wall_grid_def l Let_def GRID_SIZE_def)
qed

lemma wall_grid_gen: "gen_grid (wall_grid ids)"
  unfolding gen_grid_def
proof (intro conjI ballI allI impI)
  show "int (length (wall_grid ids)) = GRID_SIZE" by (simp add: wall_grid_def GRID_SIZE_def)
next
  fix row assume "row \<in> set (wall_grid ids)"
  then show "int (length row) = GRID_SIZE" by (auto simp: wall_grid_def GRID_SIZE_def)
next
  fix x y c assume "cell_at (wall_grid ids) x y = Some c"
  then show "cell_x c = x" "cell_y c = y"
    unfolding wall_grid_cell_at by (auto split: if_splits)
qed

lemma wall_grid_type: "type_at (wall_grid ids) p = (if p \<in> board then Some Wall else None)"
  by (simp add: type_at_def wall_grid_cell_at)

lemma lattice_board: "p \<in> lattice \<Longrightarrow> p \<in> board"
  by (simp add: lattice_def board_iff)

lemma carve_ok:
  assumes "gen_grid g" "set stack \<subseteq> lattice"
  shows "\<exists>g'. carve pick i g stack visited = Inr g' \<and> gen_grid g' \<and>
              (\<forall>p. type_at g' p = type_at g p \<or> type_at g' p = Some Empty)"
  using assms
proof (induction pick i g stack visited rule: carve.induct)
  case (1 pick i g stack visited)
  show ?case
  proof (cases "stack = []")
    case True
    then show ?thesis using "1.prems"(1) by (subst carve.simps) simp
  next
    case False
    define x where "x = fst (last stack)"
    define y where "y = snd (last stack)"
    define neighbors where "neighbors = carve_neighbors visited x y"
    have top: "(x, y) \<in> lattice" using False "1.prems"(2) last_in_set[OF False]
      unfolding x_def y_def by auto
    show ?thesis
    proof (cases "0 < length neighbors")
      case False
      have IH: "\<exists>g'. carve pick i g (butlast stack) visited = Inr g' \<and> gen_grid g' \<and>
              (\<forall>p. type_at g' p = type_at g p \<or> type_at g' p = Some Empty)"
      proof (rule "1.IH"(2)[OF \<open>stack \<noteq> []\<close> x_def y_def neighbors_def False "1.prems"(1)])
        show "set (butlast stack) \<subseteq> lattice" using "1.prems"(2) by (meson in_set_butlastD subset_code(1))
      qed
      have "carve pick i g stack visited = carve pick i g (butlast stack) visited"
        using \<open>stack \<noteq> []\<close> False
        by (subst carve.simps) (simp add: Let_def x_def y_def neighbors_def)
      then show ?thesis using IH by simp
    next
      case True
      obtain nx ny dx dy where ch: "neighbors ! (pick i mod length neighbors) = (nx, ny, dx, dy)"
        by (metis prod_cases4)
      have "neighbors ! (pick i mod length neighbors) \<in> set neighbors" using True by simp
      then have mem: "(nx, ny, dx, dy) \<in> set (carve_neighbors visited x y)"
        using ch by (simp add: neighbors_def)
      note nb = carve_neighbors_set[OF mem]
      have mid: "(x + dx, y + dy) \<in> board"
        using top nb(3) by (auto simp: lattice_def board_iff)
      from set_type_gen[OF "1.prems"(1) mid, of Empty] obtain g1 where
        g1: "set_type g (x + dx) (y + dy) Empty = Inr g1" "gen_grid g1"
        "type_at g1 = (type_at g)((x + dx, y + dy) \<mapsto> Empty)" by blast
      from set_type_gen[OF g1(2) lattice_board[OF nb(1)], of Empty] obtain g2 where
        g2: "set_type g1 nx ny Empty = Inr g2" "gen_grid g2"
        "type_at g2 = (type_at g1)((nx, ny) \<mapsto> Empty)" by blast
      have IH: "\<exists>g'. carve pick (i + 1) g2 (stack @ [(nx, ny)]) (insert (nx, ny) visited) = Inr g' \<and>
              gen_grid g' \<and> (\<forall>p. type_at g' p = type_at g2 p \<or> type_at g' p = Some Empty)"
      proof (rule "1.IH"(1)[OF \<open>stack \<noteq> []\<close> x_def y_def neighbors_def True _ _ _ g1(1) g2(1) g2(2)])
        show "(nx, ny, dx, dy) = neighbors ! (pick i mod length neighbors)" by (simp add: ch)
        show "(ny, dx, dy) = (ny, dx, dy)" by simp
        show "(dx, dy) = (dx, dy)" by simp
        show "set (stack @ [(nx, ny)]) \<subseteq> lattice" using "1.prems"(2) nb(1) by simp
      qed
      then obtain g' where g': "carve pick (i + 1) g2 (stack @ [(nx, ny)]) (insert (nx, ny) visited) = Inr g'"
        "gen_grid g'" "\<And>p. type_at g' p = type_at g2 p \<or> type_at g' p = Some Empty" by blast
      have eq: "carve pick i g stack visited = Inr g'"
        using \<open>stack \<noteq> []\<close> True
        by (subst carve.simps)
           (use g'(1) in \<open>simp add: Let_def x_def[symmetric] y_def[symmetric]
              neighbors_def[symmetric] ch g1(1) g2(1)\<close>)
      have "type_at g' p = type_at g p \<or> type_at g' p = Some Empty" for p
        using g'(3)[of p] unfolding g2(3) g1(3) by (auto split: if_splits)
      then show ?thesis using eq g'(2) by blast
    qed
  qed
qed

lemma carve_start:
  assumes g: "gen_grid g"
  shows "\<exists>g'. carve pick 0 g [(1, 1)] {(1, 1)} = Inr g' \<and> gen_grid g' \<and>
              (\<forall>p. type_at g' p = type_at g p \<or> type_at g' p = Some Empty) \<and>
              (type_at g' (1, 2) = Some Empty \<or> type_at g' (2, 1) = Some Empty)"
proof -
  have nb: "carve_neighbors {(1, 1)} 1 1 = [(1, 3, 0, 1), (3, 1, 1, 0)]"
    by (simp add: carve_neighbors_def CARVE_DIRECTIONS_def GRID_SIZE_def)
  have "pick 0 mod 2 = 0 \<or> pick 0 mod 2 = 1" by auto
  then show ?thesis
  proof
    assume "pick 0 mod 2 = 0"
    then have idx: "pick 0 mod Suc (Suc 0) = 0" by (simp add: numeral_2_eq_2)
    from set_type_gen[OF g, of 1 2 Empty] obtain g1 where
      g1: "set_type g 1 2 Empty = Inr g1" "gen_grid g1" "type_at g1 = (type_at g)((1, 2) \<mapsto> Empty)"
      by (auto simp: board_iff GRID_SIZE_def)
    from set_type_gen[OF g1(2), of 1 3 Empty] obtain g2 where
      g2: "set_type g1 1 3 Empty = Inr g2" "gen_grid g2" "type_at g2 = (type_at g1)((1, 3) \<mapsto> Empty)"
      by (auto simp: board_iff GRID_SIZE_def)
    from carve_ok[OF g2(2), of "[(1, 1), (1, 3)]" pick 1 "{(1, 3), (1, 1)}"] obtain g' where
      g': "carve pick 1 g2 [(1, 1), (1, 3)] {(1, 3), (1, 1)} = Inr g'" "gen_grid g'"
      "\<And>p. type_at g' p = type_at g2 p \<or> type_at g' p = Some Empty"
      by (auto simp: lattice_def GRID_SIZE_def)
    have eq: "carve pick 0 g [(1, 1)] {(1, 1)} = Inr g'"
      by (subst carve.simps) (use g'(1) in \<open>simp add: nb idx g1(1) g2(1)\<close>)
    have mono: "type_at g' p = type_at g p \<or> type_at g' p = Some Empty" for p
      using g'(3)[of p] unfolding g2(3) g1(3) by (auto split: if_splits)
    have "type_at g' (1, 2) = Some Empty" using g'(3)[of "(1, 2)"] unfolding g2(3) g1(3) by auto
    then show ?thesis using eq g'(2) mono by blast
  next
    assume "pick 0 mod 2 = 1"
    then have idx: "pick 0 mod Suc (Suc 0) = Suc 0" by (simp add: numeral_2_eq_2)
    from set_type_gen[OF g, of 2 1 Empty] obtain g1 where
      g1: "set_type g 2 1 Empty = Inr g1" "gen_grid g1" "type_at g1 = (type_at g)((2, 1) \<mapsto> Empty)"
      by (auto simp: board_iff GRID_SIZE_def)
    from set_type_gen[OF g1(2), of 3 1 Empty] obtain g2 where
      g2: "set_type g1 3 1 Empty = Inr g2" "gen_grid g2" "type_at g2 = (type_at g1)((3, 1) \<mapsto> Empty)"
      by (auto simp: board_iff GRID_SIZE_def)
    from carve_ok[OF g2(2), of "[(1, 1), (3, 1)]" pick 1 "{(3, 1), (1, 1)}"] obtain g' where
      g': "carve pick 1 g2 [(1, 1), (3, 1)] {(3, 1), (1, 1)} = Inr g'" "gen_grid g'"
      "\<And>p. type_at g' p = type_at g2 p \<or> type_at g' p = Some Empty"
      by (auto simp: lattice_def GRID_SIZE_def)
    have eq: "carve pick 0 g [(1, 1)] {(1, 1)} = Inr g'"
      by (subst carve.simps) (use g'(1) in \<open>simp add: nb idx g1(1) g2(1)\<close>)
    have mono: "type_at g' p = type_at g p \<or> type_at g' p = Some Empty" for p
      using g'(3)[of p] unfolding g2(3) g1(3) by (auto split: if_splits)
    have "type_at g' (2, 1) = Some Empty" using g'(3)[of "(2, 1)"] unfolding g2(3) g1(3) by auto
    then show ?thesis using eq g'(2) mono by blast
  qed
qed

lemma visit_moves_no_error:
  assumes "gen_grid g"
  shows "\<exists>dq'. for_each (visit_move g cur) ms dq = Inr dq'"
proof (induction ms arbitrary: dq)
  case Nil
  show ?case by simp
next
  case (Cons m ms)
  obtain cx cy d where cur: "cur = (cx, cy, d)" by (cases cur)
  have "\<exists>dq1. visit_move g cur m dq = Inr dq1"
  proof (cases "0 \<le> cx + fst m \<and> cx + fst m < GRID_SIZE \<and> 0 \<le> cy + snd m \<and> cy + snd m < GRID_SIZE")
    case True
    then have "(cx + fst m, cy + snd m) \<in> board" by (simp add: board_iff)
    from gen_grid_cell_at[OF assms this] obtain c where
      "cell_at g (cx + fst m) (cy + snd m) = Some c" by blast
    then show ?thesis using True unfolding cur visit_move_def Let_def by simp
  next
    case False
    then show ?thesis unfolding cur visit_move_def Let_def by auto
  qed
  then obtain dq1 where "visit_move g cur m dq = Inr dq1" ..
  then show ?case using Cons.IH[of dq1] by simp
qed

lemma discovered_dom_mono: "discovered P dq dq' \<Longrightarrow> dom (fst dq) \<subseteq> dom (fst dq')"
  unfolding discovered_def by auto

lemma visit_moves_complete:
  assumes "for_each (visit_move g (cx, cy, d)) ms dq = Inr dq'" "m \<in> set ms"
    and "0 \<le> cx + fst m" "cx + fst m < GRID_SIZE" "0 \<le> cy + snd m" "cy + snd m < GRID_SIZE"
    and "cell_at g (cx + fst m) (cy + snd m) = Some c" "cell_type c = Empty"
  shows "(cx + fst m, cy + snd m) \<in> dom (fst dq')"
  using assms(1,2)
proof (induction ms arbitrary: dq)
  case Nil
  then show ?case by simp
next
  case (Cons a ms)
  from Cons.prems(1) obtain dq1 where 1: "visit_move g (cx, cy, d) a dq = Inr dq1"
    and 2: "for_each (visit_move g (cx, cy, d)) ms dq1 = Inr dq'"
    by (auto split: sum.splits)
  show ?case
  proof (cases "m = a")
    case True
    have "(cx + fst m, cy + snd m) \<in> dom (fst dq1)"
      using 1 assms(3-8) True unfolding visit_move_def Let_def by (auto split: if_splits)
    moreover have "dom (fst dq1) \<subseteq> dom (fst dq')"
      by (rule discovered_dom_mono[of "\<lambda>_. True"]) (rule discovered_moves[OF 2], simp)
    ultimately show ?thesis by auto
  next
    case False
    then have "m \<in> set ms" using Cons.prems(2) by simp
    from Cons.IH[OF 2 this] show ?thesis .
  qed
qed

lemma visit_moves_entries:
  assumes g: "gen_grid g" and cur: "linked g (cx, cy)" "0 \<le> d"
    and f: "for_each (visit_move g (cx, cy, d)) GOAL_MOVES dq = Inr dq'"
  shows "discovered (\<lambda>e. entry_ok g e \<and> 0 < snd (snd e)) dq dq'"
proof (rule discovered_moves[OF f])
  fix m c
  assume a: "m \<in> set GOAL_MOVES" "cell_at g (cx + fst m) (cy + snd m) = Some c" "cell_type c = Empty"
  have card: "cardinal_neighbor (cx, cy) (cx + fst m, cy + snd m)"
    using a(1) by (auto simp: GOAL_MOVES_def cardinal_neighbor_def)
  have t: "type_at g (cx + fst m, cy + snd m) = Some Empty" using a(2,3) by (simp add: type_at_def)
  from linked_step[OF cur(1) card t]
  show "entry_ok g (cx + fst m, cy + snd m, d + 1) \<and> 0 < snd (snd (cx + fst m, cy + snd m, d + 1))"
    using t cur(2) by (simp add: entry_ok_def key_pos_def)
qed

lemma find_goal_ok:
  assumes "gen_grid g" "\<forall>e\<in>set q. entry_ok g e" "0 \<le> bestDist"
    "0 < bestDist \<longrightarrow> linked g goalPos \<and> type_at g goalPos = Some Empty"
    "0 < bestDist \<or> (\<exists>e\<in>set q. 0 < snd (snd e))"
  shows "\<exists>gp. find_goal g dists q bestDist goalPos = Inr gp \<and> linked g gp \<and>
              type_at g gp = Some Empty"
  using assms
proof (induction g dists q bestDist goalPos rule: find_goal.induct)
  case (1 grid dists bestDist goalPos)
  then show ?case by simp
next
  case (2 grid dists cur q bestDist goalPos)
  obtain cx cy d where cur: "cur = (cx, cy, d)" by (cases cur)
  have ok: "entry_ok grid cur" using "2.prems"(2) by simp
  then have l: "linked grid (cx, cy)" and d0: "0 \<le> d"
    and dE: "0 < d \<longrightarrow> type_at grid (cx, cy) = Some Empty"
    by (simp_all add: entry_ok_def cur key_pos_def)
  from visit_moves_no_error[OF "2.prems"(1), of cur GOAL_MOVES "(dists, q)"] obtain dq' where
    f: "for_each (visit_move grid cur) GOAL_MOVES (dists, q) = Inr dq'" by blast
  obtain dists' q' where dq': "dq' = (dists', q')" by (cases dq')
  have "discovered (\<lambda>e. entry_ok grid e \<and> 0 < snd (snd e)) (dists, q) (dists', q')"
    using visit_moves_entries[OF "2.prems"(1) l d0 f[unfolded cur]] by (simp only: dq')
  then have "\<exists>new. q' = q @ new \<and> (\<forall>e\<in>set new. entry_ok grid e \<and> 0 < snd (snd e))"
    unfolding discovered_def fst_conv snd_conv by (elim exE conjE, intro exI conjI)
  then obtain new where
    new: "q' = q @ new" "\<forall>e\<in>set new. entry_ok grid e \<and> 0 < snd (snd e)" by (elim exE conjE)
  have q'ok: "\<forall>e\<in>set q'. entry_ok grid e" using "2.prems"(2) new by auto
  define best where "best = (if snd (snd cur) > bestDist then (snd (snd cur), (fst cur, fst (snd cur)))
                  else (bestDist, goalPos))"
  have ex: "\<exists>gp. find_goal grid dists' q' (fst best) (snd best) = Inr gp \<and>
          linked grid gp \<and> type_at grid gp = Some Empty"
  proof (rule "2.IH"[OF best_def f[unfolded dq'] refl "2.prems"(1) q'ok])
    show "0 \<le> fst best" using d0 "2.prems"(3) by (simp add: best_def cur)
    show "0 < fst best \<longrightarrow> linked grid (snd best) \<and> type_at grid (snd best) = Some Empty"
      using l dE "2.prems"(3,4) by (simp add: best_def cur)
    show "0 < fst best \<or> (\<exists>e\<in>set q'. 0 < snd (snd e))"
    proof (cases "0 < fst best")
      case True
      then show ?thesis by simp
    next
      case False
      then have nb: "\<not> 0 < bestDist" "\<not> 0 < d" using "2.prems"(3) by (auto simp: best_def cur split: if_splits)
      with "2.prems"(5) obtain e where e: "e \<in> set (cur # q)" "0 < snd (snd e)" by blast
      have "e \<noteq> cur" using e(2) nb by (auto simp: cur)
      then have "e \<in> set q'" using e(1) new(1) by simp
      then show ?thesis using e(2) by blast
    qed
  qed
  have eq: "find_goal grid dists (cur # q) bestDist goalPos =
      find_goal grid dists' q' (fst best) (snd best)"
    by (simp add: f dq' best_def Let_def)
  show ?case unfolding eq by (rule ex)
qed

lemma find_goal_start:
  assumes g: "gen_grid g"
    and nb: "type_at g (1, 2) = Some Empty \<or> type_at g (2, 1) = Some Empty"
  shows "\<exists>gp. find_goal g [(1, 1) \<mapsto> 0] [(1, 1, 0)] 0 (1, 1) = Inr gp \<and> linked g gp \<and>
              type_at g gp = Some Empty"
proof -
  from visit_moves_no_error[OF g, of "(1, 1, 0)" GOAL_MOVES "([(1, 1) \<mapsto> 0], [])"] obtain dq' where
    f: "for_each (visit_move g (1, 1, 0)) GOAL_MOVES ([(1, 1) \<mapsto> 0], []) = Inr dq'" by blast
  obtain dists' q' where dq': "dq' = (dists', q')" by (cases dq')
  have "discovered (\<lambda>e. entry_ok g e \<and> 0 < snd (snd e)) ([(1, 1) \<mapsto> 0], []) (dists', q')"
    using visit_moves_entries[OF g linked_start _ f] by (simp only: dq')
  then have "\<exists>new. q' = new \<and> dom dists' = {(1, 1)} \<union> key_pos ` set new \<and>
               (\<forall>e\<in>set new. entry_ok g e \<and> 0 < snd (snd e))"
    unfolding discovered_def fst_conv snd_conv by (elim exE conjE, intro exI conjI) simp_all
  then have q': "dom dists' = {(1, 1)} \<union> key_pos ` set q'"
    "\<forall>e\<in>set q'. entry_ok g e \<and> 0 < snd (snd e)" by simp_all
  have "\<exists>p. p \<in> dom dists' \<and> p \<noteq> (1, 1)"
  proof -
    from nb show ?thesis
    proof
      assume "type_at g (1, 2) = Some Empty"
      then obtain c where c: "cell_at g (1 + fst (0::int, 1::int)) (1 + snd (0::int, 1::int)) = Some c"
        "cell_type c = Empty" by (auto simp: type_at_def)
      have "(1 + fst (0::int, 1::int), 1 + snd (0::int, 1::int)) \<in> dom (fst dq')"
        by (rule visit_moves_complete[OF f _ _ _ _ _ c]) (simp_all add: GOAL_MOVES_def GRID_SIZE_def)
      then have "(1, 2) \<in> dom dists'" by (simp add: dq')
      then show ?thesis by (intro exI[of _ "(1, 2)"]) simp
    next
      assume "type_at g (2, 1) = Some Empty"
      then obtain c where c: "cell_at g (1 + fst (1::int, 0::int)) (1 + snd (1::int, 0::int)) = Some c"
        "cell_type c = Empty" by (auto simp: type_at_def)
      have "(1 + fst (1::int, 0::int), 1 + snd (1::int, 0::int)) \<in> dom (fst dq')"
        by (rule visit_moves_complete[OF f _ _ _ _ _ c]) (simp_all add: GOAL_MOVES_def GRID_SIZE_def)
      then have "(2, 1) \<in> dom dists'" by (simp add: dq')
      then show ?thesis by (intro exI[of _ "(2, 1)"]) simp
    qed
  qed
  then obtain e where e: "e \<in> set q'" using q'(1) by auto
  have "\<exists>gp. find_goal g dists' q' 0 (1, 1) = Inr gp \<and> linked g gp \<and> type_at g gp = Some Empty"
  proof (rule find_goal_ok[OF g])
    show "\<forall>e\<in>set q'. entry_ok g e" using q'(2) by simp
    show "0 < (0::int) \<or> (\<exists>e\<in>set q'. 0 < snd (snd e))" using e q'(2) by blast
  qed simp_all
  moreover have "find_goal g [(1, 1) \<mapsto> 0] [(1, 1, 0)] 0 (1, 1) = find_goal g dists' q' 0 (1, 1)"
    by (simp add: f dq' Let_def)
  ultimately show ?thesis by simp
qed

lemma open_walk_snoc:
  "open_walk g (ps @ [q]) \<longleftrightarrow>
     open_walk g ps \<and> (ps \<noteq> [] \<longrightarrow> cardinal_neighbor (last ps) q \<and> type_at g q = Some Empty)"
  by (induction g ps rule: open_walk.induct) auto

lemma linked_walk:
  assumes "linked g p"
  shows "\<exists>ps. ps \<noteq> [] \<and> hd ps = (1, 1) \<and> last ps = p \<and> open_walk g ps"
  using assms
proof (induction rule: linked.induct)
  case linked_start
  show ?case by (rule exI[of _ "[(1, 1)]"]) simp
next
  case (linked_step p q)
  then obtain ps where ps: "ps \<noteq> []" "hd ps = (1, 1)" "last ps = p" "open_walk g ps" by blast
  show ?case
    by (rule exI[of _ "ps @ [q]"]) (use ps linked_step.hyps in \<open>simp add: open_walk_snoc\<close>)
qed

lemma open_walk_legal:
  assumes "\<And>q. type_at g q = Some Empty \<Longrightarrow> in_grid g' q \<and> \<not> is_wall g' q"
    and "open_walk g ps"
  shows "steps_legal g' ps \<and> filter (is_wall g') (tl ps) = []"
  using assms
proof (induction g ps rule: open_walk.induct)
  case (3 g p q ps)
  from "3.prems"(2) have c: "cardinal_neighbor p q" "type_at g q = Some Empty" "open_walk g (q # ps)"
    by simp_all
  from "3.IH"[OF "3.prems"(1) c(3)] have IH: "steps_legal g' (q # ps)" "filter (is_wall g') ps = []"
    by simp_all
  from "3.prems"(1)[OF c(2)] have q: "in_grid g' q" "\<not> is_wall g' q" by simp_all
  show ?case using c(1) q IH by (simp add: position_step_def)
qed simp_all

lemma for_each_collect:
  assumes "gen_grid g" "set ps \<subseteq> board"
  shows "for_each (\<lambda>p empties.
        (case cell_at g (fst p) (snd p) of
           None \<Rightarrow> Inl TypeError
         | Some c \<Rightarrow> Inr (if cell_type c = Empty then empties @ [p] else empties))) ps acc =
     Inr (acc @ filter (\<lambda>p. type_at g p = Some Empty) ps)"
  using assms(2)
proof (induction ps arbitrary: acc)
  case Nil
  show ?case by simp
next
  case (Cons p ps)
  then have "(fst p, snd p) \<in> board" by simp
  from gen_grid_cell_at[OF assms(1) this] obtain c where c: "cell_at g (fst p) (snd p) = Some c"
    by blast
  show ?case using Cons c by (simp add: type_at_def)
qed

lemma all_positions_board:
  "0 \<le> lo \<Longrightarrow> hi < GRID_SIZE \<Longrightarrow> set (all_positions lo hi) \<subseteq> board"
  unfolding all_positions_def by (auto simp: board_iff)

lemma collect_empties_ok:
  assumes "gen_grid g"
  shows "\<exists>es. collect_empties g = Inr es \<and> (\<forall>p\<in>set es. p \<in> board \<and> type_at g p = Some Empty)"
proof -
  have b: "set (all_positions 0 (GRID_SIZE - 1)) \<subseteq> board"
    by (rule all_positions_board) simp_all
  show ?thesis
    unfolding collect_empties_def for_each_collect[OF assms b] using b by auto
qed

lemma place_portals_ok:
  assumes g: "gen_grid g" and es: "\<forall>p\<in>set empties. p \<in> board \<and> type_at g p = Some Empty"
    and f: "rearranges f"
  shows "\<exists>g'. place_portals f empties g = Inr g' \<and> gen_grid g' \<and>
           (\<forall>p. type_at g' p = type_at g p \<or> (type_at g p = Some Empty \<and> type_at g' p = Some Portal))"
proof (cases "2 \<le> length empties")
  case False
  then show ?thesis using g by (simp add: place_portals_def)
next
  case True
  then have "2 \<le> length (f empties)" using f by (simp add: rearranges_def)
  then obtain p1 p2 rest where sh: "f empties = p1 # p2 # rest"
    by (cases "f empties"; cases "tl (f empties)") auto
  have "set (f empties) = set empties" using f by (simp add: rearranges_def)
  then have p1: "(fst p1, snd p1) \<in> board" "type_at g p1 = Some Empty"
    and p2: "(fst p2, snd p2) \<in> board" "type_at g p2 = Some Empty"
    using es sh by auto
  from set_type_gen[OF g p1(1), of Portal] obtain g1 where
    g1: "set_type g (fst p1) (snd p1) Portal = Inr g1" "gen_grid g1"
    "type_at g1 = (type_at g)(p1 \<mapsto> Portal)" by auto
  from set_portalColor_gen[OF g1(2) p1(1), of Blue] obtain g2 where
    g2: "set_portalColor g1 (fst p1) (snd p1) Blue = Inr g2" "gen_grid g2" "type_at g2 = type_at g1"
    by auto
  from set_type_gen[OF g2(2) p2(1), of Portal] obtain g3 where
    g3: "set_type g2 (fst p2) (snd p2) Portal = Inr g3" "gen_grid g3"
    "type_at g3 = (type_at g2)(p2 \<mapsto> Portal)" by auto
  from set_portalColor_gen[OF g3(2) p2(1), of Blue] obtain g4 where
    g4: "set_portalColor g3 (fst p2) (snd p2) Blue = Inr g4" "gen_grid g4" "type_at g4 = type_at g3"
    by auto
  have eq: "place_portals f empties g = Inr g4"
    using True by (simp add: place_portals_def sh and_then_def g1(1) g2(1) g3(1) g4(1))
  have "type_at g4 p = type_at g p \<or> (type_at g p = Some Empty \<and> type_at g4 p = Some Portal)" for p
    unfolding g4(3) g3(3) g2(3) g1(3) using p1(2) p2(2) by auto
  then show ?thesis using eq g4(2) by blast
qed

lemma punch_step:
  assumes g: "gen_grid g" and p: "p \<in> board"
  shows "\<exists>g'. (case cell_at g (fst p) (snd p) of
                 None \<Rightarrow> Inl TypeError
               | Some c \<Rightarrow>
                   if cell_type c = Wall \<and> hole (fst p) (snd p) then set_type g (fst p) (snd p) Empty
                   else Inr g) = Inr g' \<and> gen_grid g' \<and>
           (\<forall>q. type_at g' q = type_at g q \<or> (type_at g q = Some Wall \<and> type_at g' q = Some Empty))"
proof -
  have pb: "(fst p, snd p) \<in> board" using p by simp
  from gen_grid_cell_at[OF g pb] obtain c where c: "cell_at g (fst p) (snd p) = Some c" by blast
  show ?thesis
  proof (cases "cell_type c = Wall \<and> hole (fst p) (snd p)")
    case False
    then show ?thesis using c g by auto
  next
    case True
    from set_type_gen[OF g pb, of Empty] obtain g' where
      g': "set_type g (fst p) (snd p) Empty = Inr g'" "gen_grid g'"
      "type_at g' = (type_at g)(p \<mapsto> Empty)" by auto
    have "type_at g p = Some Wall" using c True by (simp add: type_at_def)
    then have "type_at g' q = type_at g q \<or> (type_at g q = Some Wall \<and> type_at g' q = Some Empty)" for q
      unfolding g'(3) by auto
    then show ?thesis using c True g' by auto
  qed
qed

lemma punch_loop:
  assumes "gen_grid g" "set ps \<subseteq> board"
  shows "\<exists>g'. for_each (\<lambda>p g.
        (case cell_at g (fst p) (snd p) of
           None \<Rightarrow> Inl TypeError
         | Some c \<Rightarrow>
             if cell_type c = Wall \<and> hole (fst p) (snd p) then set_type g (fst p) (snd p) Empty
             else Inr g)) ps g = Inr g' \<and> gen_grid g' \<and>
           (\<forall>q. type_at g' q = type_at g q \<or> (type_at g q = Some Wall \<and> type_at g' q = Some Empty))"
  using assms
proof (induction ps arbitrary: g)
  case Nil
  then show ?case by simp
next
  case (Cons p ps)
  from punch_step[OF Cons.prems(1), of p hole] Cons.prems(2) obtain g1 where
    g1: "(case cell_at g (fst p) (snd p) of
                 None \<Rightarrow> Inl TypeError
               | Some c \<Rightarrow>
                   if cell_type c = Wall \<and> hole (fst p) (snd p) then set_type g (fst p) (snd p) Empty
                   else Inr g) = Inr g1" "gen_grid g1"
    "\<And>q. type_at g1 q = type_at g q \<or> (type_at g q = Some Wall \<and> type_at g1 q = Some Empty)"
    by auto
  from Cons.IH[OF g1(2)] Cons.prems(2) obtain g' where
    g': "for_each (\<lambda>p g.
        (case cell_at g (fst p) (snd p) of
           None \<Rightarrow> Inl TypeError
         | Some c \<Rightarrow>
             if cell_type c = Wall \<and> hole (fst p) (snd p) then set_type g (fst p) (snd p) Empty
             else Inr g)) ps g1 = Inr g'" "gen_grid g'"
    "\<And>q. type_at g' q = type_at g1 q \<or> (type_at g1 q = Some Wall \<and> type_at g' q = Some Empty)"
    by auto
  have "type_at g' q = type_at g q \<or> (type_at g q = Some Wall \<and> type_at g' q = Some Empty)" for q
    using g1(3)[of q] g'(3)[of q] by auto
  then show ?case using g1(1) g'(1,2) by auto
qed

lemma punch_holes_ok:
  assumes "gen_grid g"
  shows "\<exists>g'. punch_holes hole g = Inr g' \<and> gen_grid g' \<and>
           (\<forall>q. type_at g' q = type_at g q \<or> (type_at g q = Some Wall \<and> type_at g' q = Some Empty))"
  unfolding punch_holes_def
  by (rule punch_loop[OF assms]) (rule all_positions_board, simp_all add: GRID_SIZE_def)

lemma rows_from_distinct:
  assumes "rows_from n rows"
  shows "distinct (map (\<lambda>c. (cell_x c, cell_y c)) (concat rows)) \<and>
         (\<forall>c\<in>set (concat rows). int n \<le> cell_y c)"
  using assms
proof (induction rows arbitrary: n)
  case Nil
  show ?case by simp
next
  case (Cons r rs)
  have r: "cell_x (r ! i) = int i \<and> cell_y (r ! i) = int n" if "i < length r" for i
    using Cons.prems[unfolded rows_from_def, rule_format, of 0 i] that by simp
  have rs: "rows_from (Suc n) rs"
    unfolding rows_from_def
  proof (intro allI impI)
    fix j i assume "j < length rs" "i < length (rs ! j)"
    then show "cell_x (rs ! j ! i) = int i \<and> cell_y (rs ! j ! i) = int (Suc n + j)"
      using Cons.prems[unfolded rows_from_def, rule_format, of "Suc j" i] by simp
  qed
  from Cons.IH[OF rs] have IH: "distinct (map (\<lambda>c. (cell_x c, cell_y c)) (concat rs))"
    "\<And>c. c \<in> set (concat rs) \<Longrightarrow> int (Suc n) \<le> cell_y c" by auto
  have "map (\<lambda>c. (cell_x c, cell_y c)) r = map (\<lambda>i. (int i, int n)) [0..<length r]"
    by (rule nth_equalityI) (use r in auto)
  moreover have "distinct (map (\<lambda>i. (int i, int n)) [0..<length r])"
    by (simp add: distinct_map inj_on_def)
  ultimately have dr: "distinct (map (\<lambda>c. (cell_x c, cell_y c)) r)" by simp
  have yr: "\<And>c. c \<in> set r \<Longrightarrow> cell_y c = int n" using r by (auto simp: in_set_conv_nth)
  have disj: "(\<lambda>c. (cell_x c, cell_y c)) ` set r \<inter> (\<lambda>c. (cell_x c, cell_y c)) ` set (concat rs) = {}"
  proof (rule ccontr)
    assume "(\<lambda>c. (cell_x c, cell_y c)) ` set r \<inter> (\<lambda>c. (cell_x c, cell_y c)) ` set (concat rs) \<noteq> {}"
    then obtain a b where ab: "a \<in> set r" "b \<in> set (concat rs)" "cell_y a = cell_y b" by auto
    from yr[OF ab(1)] IH(2)[OF ab(2)] ab(3) show False by simp
  qed
  have d: "distinct (map (\<lambda>c. (cell_x c, cell_y c)) (concat (r # rs)))"
    using dr IH(1) disj by simp
  have "int n \<le> cell_y c" if "c \<in> set (concat (r # rs))" for c
  proof -
    from that consider "c \<in> set r" | "c \<in> set (concat rs)" by auto
    then show ?thesis
    proof cases
      case 1
      then show ?thesis using yr by simp
    next
      case 2
      from IH(2)[OF 2] show ?thesis by simp
    qed
  qed
  then show ?case using d by blast
qed

lemma wf_distinct_cells:
  assumes "wf_grid g"
  shows "distinct (concat g)"
proof -
  have "rows_from 0 g"
    unfolding rows_from_def
  proof (intro allI impI)
    fix j i assume "j < length g" "i < length (g ! j)"
    from wf_grid_nth(2)[OF assms this]
    show "cell_x (g ! j ! i) = int i \<and> cell_y (g ! j ! i) = int (0 + j)" by simp
  qed
  from rows_from_distinct[OF this]
  have "distinct (map (\<lambda>c. (cell_x c, cell_y c)) (concat g))" by blast
  then show ?thesis unfolding distinct_map by (rule conjunct1)
qed

lemma filter_single:
  assumes "distinct xs" "c0 \<in> set xs" "P c0" "\<And>c. c \<in> set xs \<Longrightarrow> P c \<Longrightarrow> c = c0"
  shows "length (filter P xs) = 1"
proof -
  have "set (filter P xs) = {c0}"
  proof
    show "set (filter P xs) \<subseteq> {c0}" using assms(4) by auto
    show "{c0} \<subseteq> set (filter P xs)" using assms(2,3) by simp
  qed
  moreover have "distinct (filter P xs)" using assms(1) by simp
  ultimately have "card {c0} = length (filter P xs)" using distinct_card[of "filter P xs"] by simp
  then show ?thesis by simp
qed

lemma single_type:
  assumes g: "gen_grid g" and b: "p0 \<in> board" and t: "\<And>p. type_at g p = Some t \<longleftrightarrow> p = p0"
  shows "length (filter (\<lambda>c. cell_type c = t) (concat g)) = 1"
proof -
  have p0: "(fst p0, snd p0) \<in> board" using b by simp
  from gen_grid_cell_at[OF g p0] obtain c0 where c0: "cell_at g (fst p0) (snd p0) = Some c0" by blast
  have t0: "cell_type c0 = t" using t[of p0] c0 by (simp add: type_at_def)
  have wf: "wf_grid g" by (rule gen_grid_wf(1)[OF g])
  have in0: "c0 \<in> set (concat g)"
    using cell_at_in_grid[OF wf cell_at_Some_in_grid[OF wf c0]] c0 by auto
  show ?thesis
  proof (rule filter_single[where P="\<lambda>c. cell_type c = t", OF wf_distinct_cells[OF wf] in0 t0])
    fix c assume c: "c \<in> set (concat g)" "cell_type c = t"
    from concat_cell_at[OF wf c(1)] have at: "cell_at g (cell_x c) (cell_y c) = Some c" by simp
    then have "type_at g (cell_x c, cell_y c) = Some t" using c(2) by (simp add: type_at_def)
    then have "(cell_x c, cell_y c) = p0" using t by blast
    then show "c = c0" using at c0 by (cases p0) auto
  qed
qed

lemma is_wall_type: "is_wall g p \<longleftrightarrow> type_at g p = Some Wall"
  by (auto simp: is_wall_def type_at_def split: option.splits)

lemma is_start_type: "is_start g p \<longleftrightarrow> type_at g p = Some Start"
  by (auto simp: is_start_def type_at_def split: option.splits)

lemma is_goal_type: "is_goal g p \<longleftrightarrow> type_at g p = Some Goal"
  by (auto simp: is_goal_def type_at_def split: option.splits)

lemma type_at_board: "gen_grid g \<Longrightarrow> type_at g p = Some t \<Longrightarrow> p \<in> board"
  using gen_grid_cell_at_board[of g "fst p" "snd p"] by (auto simp: type_at_def)

lemma build_maze_ok:
  assumes sh: "rearranges (shuffle r)"
  shows "\<exists>g. build_maze r = Inr g \<and> maze_ok g"
proof -
  let ?g0 = "wall_grid (cell_ids r)"
  have b11: "(1, 1) \<in> board" by (simp add: board_iff GRID_SIZE_def)
  from set_type_gen[OF wall_grid_gen b11, of "cell_ids r" Empty] obtain g1 where
    g1: "set_type ?g0 1 1 Empty = Inr g1" "gen_grid g1" "type_at g1 = (type_at ?g0)((1, 1) \<mapsto> Empty)"
    by blast
  from carve_start[OF g1(2), of "carve_pick r"] obtain g2 where
    g2: "carve (carve_pick r) 0 g1 [(1, 1)] {(1, 1)} = Inr g2" "gen_grid g2"
    "\<And>p. type_at g2 p = type_at g1 p \<or> type_at g2 p = Some Empty"
    "type_at g2 (1, 2) = Some Empty \<or> type_at g2 (2, 1) = Some Empty" by blast
  from set_type_gen[OF g2(2) b11, of Start] obtain g3 where
    g3: "set_type g2 1 1 Start = Inr g3" "gen_grid g3" "type_at g3 = (type_at g2)((1, 1) \<mapsto> Start)"
    by blast
  have t2: "type_at g2 p = None \<or> type_at g2 p = Some Wall \<or> type_at g2 p = Some Empty" for p
    using g2(3)[of p] unfolding g1(3) wall_grid_type by (auto split: if_splits)
  have t3: "type_at g3 p = Some Start \<longleftrightarrow> p = (1, 1)"
    "type_at g3 p \<noteq> Some Goal" "type_at g3 p \<noteq> Some Portal" for p
    using t2[of p] unfolding g3(3) by auto
  have nb3: "type_at g3 (1, 2) = Some Empty \<or> type_at g3 (2, 1) = Some Empty"
    using g2(4) unfolding g3(3) by auto
  from find_goal_start[OF g3(2) nb3] obtain gp where
    gp: "find_goal g3 [(1, 1) \<mapsto> 0] [(1, 1, 0)] 0 (1, 1) = Inr gp" "linked g3 gp"
    "type_at g3 gp = Some Empty" by blast
  have gpb: "(fst gp, snd gp) \<in> board" using type_at_board[OF g3(2) gp(3)] by simp
  have gp11: "gp \<noteq> (1, 1)" using gp(3) t3(1)[of gp] by auto
  from set_type_gen[OF g3(2) gpb, of Goal] obtain g4 where
    g4: "set_type g3 (fst gp) (snd gp) Goal = Inr g4" "gen_grid g4"
    "type_at g4 = (type_at g3)(gp \<mapsto> Goal)" by auto
  from collect_empties_ok[OF g4(2)] obtain es where
    es: "collect_empties g4 = Inr es" "\<forall>p\<in>set es. p \<in> board \<and> type_at g4 p = Some Empty" by blast
  from place_portals_ok[OF g4(2) es(2) sh] obtain g5 where
    g5: "place_portals (shuffle r) es g4 = Inr g5" "gen_grid g5"
    "\<And>p. type_at g5 p = type_at g4 p \<or> (type_at g4 p = Some Empty \<and> type_at g5 p = Some Portal)"
    by blast
  from punch_holes_ok[OF g5(2), of "punch r"] obtain g6 where
    g6: "punch_holes (punch r) g5 = Inr g6" "gen_grid g6"
    "\<And>q. type_at g6 q = type_at g5 q \<or> (type_at g5 q = Some Wall \<and> type_at g6 q = Some Empty)"
    by blast
  have eq: "build_maze r = Inr g6"
    unfolding build_maze_def and_then_def
    by (simp add: g1(1) g2(1) g3(1) gp(1) g4(1) es(1) g5(1) g6(1) del: find_goal.simps)
  have t4: "type_at g4 p = Some Start \<longleftrightarrow> p = (1, 1)" "type_at g4 p = Some Goal \<longleftrightarrow> p = gp" for p
    using t3[of p] gp11 unfolding g4(3) by auto
  have t5: "type_at g5 p = Some Start \<longleftrightarrow> p = (1, 1)" "type_at g5 p = Some Goal \<longleftrightarrow> p = gp" for p
    using g5(3)[of p] t4[of p] by auto
  have t6: "type_at g6 p = Some Start \<longleftrightarrow> p = (1, 1)" "type_at g6 p = Some Goal \<longleftrightarrow> p = gp" for p
    using g6(3)[of p] t5[of p] by auto
  have one_start: "length (start_cells g6) = 1"
    unfolding start_cells_def by (rule single_type[OF g6(2) b11]) (rule t6(1))
  have one_goal: "length (goal_cells g6) = 1"
    unfolding goal_cells_def by (rule single_type[OF g6(2)]) (use gpb t6(2) in auto)
  have open6: "in_grid g6 q \<and> \<not> is_wall g6 q" if q: "type_at g3 q = Some Empty" for q
  proof -
    have "q \<in> board" by (rule type_at_board[OF g3(2) q])
    moreover have "type_at g4 q = Some Empty \<or> type_at g4 q = Some Goal"
      using q unfolding g4(3) by auto
    then have "type_at g5 q \<noteq> Some Wall" using g5(3)[of q] by auto
    then have "type_at g6 q \<noteq> Some Wall" using g6(3)[of q] by auto
    ultimately show ?thesis by (simp add: gen_grid_in_grid[OF g6(2)] is_wall_type)
  qed
  from linked_walk[OF gp(2)] obtain ps where
    ps: "ps \<noteq> []" "hd ps = (1, 1)" "last ps = gp" "open_walk g3 ps" by blast
  from open_walk_legal[of g3 g6, OF open6 ps(4)]
  have legal: "steps_legal g6 ps" "filter (is_wall g6) (tl ps) = []" by simp_all
  have "action_sequence g6 0 ps"
    unfolding action_sequence_def wall_entries_def is_start_type is_goal_type
    using ps legal t6 by simp
  then show ?thesis using eq g6(2) one_start one_goal unfolding maze_ok_def by blast
qed

lemma solveMaze_reaches:
  assumes wf: "wf_grid g" and one: "length (start_cells g) = 1" "length (goal_cells g) = 1"
    and K: "0 \<le> K" and ps: "action_sequence g K ps"
  shows "\<exists>s p. solveMaze g K = Inr (Some (s, p))"
proof -
  from one have "start_cells g \<noteq> []" "goal_cells g \<noteq> []" by auto
  then obtain start goal where fe: "findEndpoints g = (Some start, Some goal)"
    unfolding findEndpoints_eq by auto
  have st: "\<And>p. is_start g p \<longleftrightarrow> p = start"
    by (rule single_start[OF wf one(1)]) (simp add: fe)
  have go: "\<And>p. is_goal g p \<longleftrightarrow> p = goal"
    by (rule single_goal[OF wf one(2)]) (simp add: fe)
  have "action_path g K start goal ps"
    using ps unfolding action_sequence_def action_path_def st go by simp
  from search_result_ok_paths[OF solveMaze_search[OF wf K fe] this] show ?thesis by blast
qed

lemma try_moves_negative:
  assumes wf: "wf_grid g" and rows: "rows = int (length g)" and cols: "cols = int (length (hd g))"
    and b: "0 \<le> breaksUsed cur" and K: "K < 0"
  shows "try_moves g rows cols K cur dirs vq = Inr vq"
proof (induction dirs)
  case Nil
  show ?case by simp
next
  case (Cons d ds)
  have "try_move g rows cols K cur d vq = Inr vq"
  proof (cases "0 \<le> node_x cur + fst d \<and> node_x cur + fst d < cols \<and>
                0 \<le> node_y cur + snd d \<and> node_y cur + snd d < rows")
    case True
    then have "in_grid g (node_x cur + fst d, node_y cur + snd d)"
      using rows cols by (simp add: in_grid_def)
    from cell_at_in_grid[OF wf this] obtain c where
      "cell_at g (node_x cur + fst d) (node_y cur + snd d) = Some c" by blast
    then show ?thesis using True b K unfolding try_move_def Let_def by simp
  next
    case False
    then show ?thesis unfolding try_move_def Let_def by auto
  qed
  then show ?case using Cons.IH by simp
qed

lemma solveMaze_negative:
  assumes wf: "wf_grid g" and K: "K < 0"
  shows "solveMaze g K = Inr None"
proof (cases "findEndpoints g")
  case (Pair so go)
  show ?thesis
  proof (cases "\<exists>start goal. so = Some start \<and> go = Some goal")
    case False
    then show ?thesis unfolding solveMaze_def Pair by (auto split: option.splits)
  next
    case True
    then obtain start goal where fe: "findEndpoints g = (Some start, Some goal)" using Pair by auto
    from findEndpoints_Some[OF wf fe] have s: "is_start g start" and t: "is_goal g goal"
      and ne: "g \<noteq> []" by simp_all
    then obtain row0 rest where g: "g = row0 # rest" by (cases g) auto
    from s obtain c where c: "cell_at g (fst start) (snd start) = Some c" "cell_type c = Start"
      unfolding is_start_def by (auto split: option.splits)
    have neq: "\<not> (fst start = fst goal \<and> snd start = snd goal)"
    proof
      assume "fst start = fst goal \<and> snd start = snd goal"
      then have "is_goal g start" using t by (simp add: is_goal_def)
      then show False using c by (simp add: is_goal_def)
    qed
    let ?n0 = "\<lparr>node_x = fst start, node_y = snd start, breaksUsed = 0, steps = 0,
                 path = [(fst start, snd start)]\<rparr>"
    let ?V = "{(fst start, snd start, 0::int)}"
    have e: "expand g (int (length g)) (int (length (hd g))) K (findPortals g) c ?n0 (?V, []) =
               Inr (?V, [])"
      unfolding expand_def try_teleport_def using c(2)
      by (simp add: try_moves_negative[OF wf refl refl _ K])
    have "bfs g (int (length g)) (int (length (hd g))) K goal (findPortals g) ?V [?n0] = Inr None"
      using neq e by (simp add: c(1))
    then show ?thesis unfolding solveMaze_def fe by (simp add: g)
  qed
qed

lemma action_sequence_budget:
  "action_sequence g K ps \<Longrightarrow> K \<le> K' \<Longrightarrow> action_sequence g K' ps"
  unfolding action_sequence_def by auto

lemma attempt_succeeds:
  assumes K: "0 \<le> K" and sh: "rearranges (shuffle (rnd n))" and n: "n < 20"
  shows "\<exists>level sa pa sb pb.
           attempt_loop rnd K n grid = Inr level \<and> maze_ok (level_grid level) \<and>
           build_maze (rnd n) = Inr (level_grid level) \<and>
           solveMaze (level_grid level) 0 = Inr (Some (sa, pa)) \<and>
           solveMaze (level_grid level) K = Inr (Some (sb, pb)) \<and>
           optimalStepsNoBreak level = Some sa \<and> optimalStepsWithBreak level = Some sb \<and>
           level_maxBreaks level = K \<and> level_name level = ''Random Sector '' @ sector (rnd n)"
proof -
  from build_maze_ok[OF sh] obtain g where g: "build_maze (rnd n) = Inr g" "maze_ok g" by blast
  then have gg: "gen_grid g" "length (start_cells g) = 1" "length (goal_cells g) = 1"
    and seq: "\<exists>ps. action_sequence g 0 ps" by (simp_all add: maze_ok_def)
  then obtain ps where ps: "action_sequence g 0 ps" by blast
  note wf = gen_grid_wf(1)[OF gg(1)]
  from solveMaze_reaches[OF wf gg(2,3) _ ps] obtain sa pa where
    a: "solveMaze g 0 = Inr (Some (sa, pa))" by auto
  from solveMaze_reaches[OF wf gg(2,3) K action_sequence_budget[OF ps K]] obtain sb pb where
    b: "solveMaze g K = Inr (Some (sb, pb))" by auto
  have "attempt_loop rnd K n grid =
      Inr \<lparr>level_id = fresh_id (rnd n), level_name = ''Random Sector '' @ sector (rnd n),
           level_grid = g, level_maxBreaks = K, optimalStepsNoBreak = Some sa,
           optimalStepsWithBreak = Some sb, createdAt = clock (rnd n)\<rparr>"
    by (subst attempt_loop.simps) (simp add: n g(1) a b)
  then show ?thesis using g a b by simp
qed

lemma fallback_ok:
  assumes g: "gen_grid grid" and n: "\<not> n < 20"
  shows "\<exists>level. attempt_loop rnd K n grid = Inr level \<and> gen_grid (level_grid level) \<and>
           level_name level = ''Fallback Level'' \<and> optimalStepsNoBreak level = Some 2 \<and>
           optimalStepsWithBreak level = Some 2 \<and> level_maxBreaks level = K \<and>
           type_at (level_grid level) = (type_at grid)((1, 1) \<mapsto> Start, (2, 1) \<mapsto> Empty, (3, 1) \<mapsto> Goal)"
proof -
  from set_type_gen[OF g, of 1 1 Start] obtain g1 where
    g1: "set_type grid 1 1 Start = Inr g1" "gen_grid g1" "type_at g1 = (type_at grid)((1, 1) \<mapsto> Start)"
    by (auto simp: board_iff GRID_SIZE_def)
  from set_type_gen[OF g1(2), of 2 1 Empty] obtain g2 where
    g2: "set_type g1 2 1 Empty = Inr g2" "gen_grid g2" "type_at g2 = (type_at g1)((2, 1) \<mapsto> Empty)"
    by (auto simp: board_iff GRID_SIZE_def)
  from set_type_gen[OF g2(2), of 3 1 Goal] obtain g3 where
    g3: "set_type g2 3 1 Goal = Inr g3" "gen_grid g3" "type_at g3 = (type_at g2)((3, 1) \<mapsto> Goal)"
    by (auto simp: board_iff GRID_SIZE_def)
  have "attempt_loop rnd K n grid =
      Inr \<lparr>level_id = fresh_id (rnd n), level_name = ''Fallback Level'', level_grid = g3,
           level_maxBreaks = K, optimalStepsNoBreak = Some 2, optimalStepsWithBreak = Some 2,
           createdAt = clock (rnd n)\<rparr>"
    by (subst attempt_loop.simps) (simp add: n and_then_def g1(1) g2(1) g3(1))
  then show ?thesis using g3(2,3) g2(3) g1(3) by simp
qed

lemma attempts_fail_negative:
  assumes K: "K < 0" and sh: "\<forall>k. rearranges (shuffle (rnd k))"
  shows "n < 20 \<or> gen_grid grid \<Longrightarrow>
         \<exists>level. attempt_loop rnd K n grid = Inr level \<and> gen_grid (level_grid level) \<and>
           level_name level = ''Fallback Level'' \<and> optimalStepsNoBreak level = Some 2 \<and>
           optimalStepsWithBreak level = Some 2 \<and> level_maxBreaks level = K"
proof (induction "20 - n" arbitrary: n grid)
  case 0
  then have n: "\<not> n < 20" and g: "gen_grid grid" by auto
  from fallback_ok[OF g n, of rnd K] show ?case by blast
next
  case (Suc m)
  then have n: "n < 20" by simp
  from sh have shn: "rearranges (shuffle (rnd n))" by simp
  from build_maze_ok[OF shn] obtain g where g: "build_maze (rnd n) = Inr g" "maze_ok g" by blast
  then have gg: "gen_grid g" "length (start_cells g) = 1" "length (goal_cells g) = 1"
    and seq: "\<exists>ps. action_sequence g 0 ps" by (simp_all add: maze_ok_def)
  then obtain ps where ps: "action_sequence g 0 ps" by blast
  note wf = gen_grid_wf(1)[OF gg(1)]
  from solveMaze_reaches[OF wf gg(2,3) _ ps] obtain sa pa where
    a: "solveMaze g 0 = Inr (Some (sa, pa))" by auto
  have b: "solveMaze g K = Inr None" by (rule solveMaze_negative[OF wf K])
  have step: "attempt_loop rnd K n grid = attempt_loop rnd K (Suc n) g"
    by (subst attempt_loop.simps) (simp add: n g(1) a b)
  have "m = 20 - Suc n" using Suc.hyps(2) by simp
  from Suc.hyps(1)[OF this, of g] gg(1) show ?case unfolding step by blast
qed

lemma fallback_grid:
  assumes "\<not> n < 20" "attempt_loop rnd K n grid = Inr level"
  shows "fallback_patch grid = Inr (level_grid level)"
  using assms(2)
  by (subst (asm) attempt_loop.simps)
     (auto simp: assms(1) fallback_patch_def and_then_def split: sum.splits)

lemma attempts_fail_grid:
  assumes K: "K < 0" and sh: "\<forall>k. rearranges (shuffle (rnd k))"
  shows "n < 20 \<Longrightarrow> attempt_loop rnd K n grid = Inr level \<Longrightarrow>
         fallback_patch (projr (build_maze (rnd 19))) = Inr (level_grid level)"
proof (induction "20 - n" arbitrary: n grid)
  case 0
  then show ?case by simp
next
  case (Suc m)
  then have n: "n < 20" by simp
  from sh have shn: "rearranges (shuffle (rnd n))" by simp
  from build_maze_ok[OF shn] obtain g where g: "build_maze (rnd n) = Inr g" "maze_ok g" by blast
  then have gg: "gen_grid g" "length (start_cells g) = 1" "length (goal_cells g) = 1"
    and seq: "\<exists>ps. action_sequence g 0 ps" by (simp_all add: maze_ok_def)
  then obtain ps where ps: "action_sequence g 0 ps" by blast
  note wf = gen_grid_wf(1)[OF gg(1)]
  from solveMaze_reaches[OF wf gg(2,3) _ ps] obtain sa pa where
    a: "solveMaze g 0 = Inr (Some (sa, pa))" by auto
  have b: "solveMaze g K = Inr None" by (rule solveMaze_negative[OF wf K])
  have step: "attempt_loop rnd K n grid = attempt_loop rnd K (Suc n) g"
    by (subst attempt_loop.simps) (simp add: n g(1) a b)
  show ?case
  proof (cases "Suc n < 20")
    case True
    have "m = 20 - Suc n" using Suc.hyps(2) by simp
    from Suc.hyps(1)[OF this True] Suc.prems(2) show ?thesis unfolding step by simp
  next
    case False
    then have "n = 19" using n by simp
    then have "projr (build_maze (rnd 19)) = g" using g(1) by simp
    moreover have "fallback_patch g = Inr (level_grid level)"
      by (rule fallback_grid[OF False]) (use Suc.prems(2) step in simp)
    ultimately show ?thesis by simp
  qed
qed

section \<open>Independence of the order of successors\<close>

lemma bfs_with_DIRECTIONS:
  "bfs_with DIRECTIONS grid rows cols K goal portals V Q = bfs grid rows cols K goal portals V Q"
proof (induction grid rows cols K goal portals V Q rule: bfs.induct)
  case (1 grid rows cols K goal portals V)
  show ?case by simp
next
  case (2 grid rows cols K goal portals V cur Q)
  show ?case
  proof (cases "node_x cur = fst goal \<and> node_y cur = snd goal")
    case True
    then show ?thesis by simp
  next
    case False
    show ?thesis
    proof (cases "cell_at grid (node_x cur) (node_y cur)")
      case None
      then show ?thesis using False by simp
    next
      case (Some cell)
      have ex: "expand_with DIRECTIONS grid rows cols K portals cell cur (V, Q) =
                expand grid rows cols K portals cell cur (V, Q)"
        by (simp add: expand_with_def expand_def)
      show ?thesis
      proof (cases "expand grid rows cols K portals cell cur (V, Q)")
        case (Inl e)
        then show ?thesis using False Some ex by simp
      next
        case (Inr vq')
        obtain V' Q' where vq': "vq' = (V', Q')" by (cases vq')
        have IH: "bfs_with DIRECTIONS grid rows cols K goal portals V' Q' =
              bfs grid rows cols K goal portals V' Q'"
          by (rule "2.IH"[OF False Some Inr[unfolded vq'] refl])
        have l: "bfs_with DIRECTIONS grid rows cols K goal portals V (cur # Q) =
              bfs_with DIRECTIONS grid rows cols K goal portals V' Q'"
          by (subst bfs_with.simps(2), subst if_not_P[OF False]) (simp add: Some ex Inr vq')
        have r: "bfs grid rows cols K goal portals V (cur # Q) =
              bfs grid rows cols K goal portals V' Q'"
          by (subst bfs.simps(2), subst if_not_P[OF False]) (simp add: Some Inr vq')
        show ?thesis unfolding l r by (rule IH)
      qed
    qed
  qed
qed

lemma findPortals_with_id: "findPortals_with (\<lambda>ps. ps) grid = findPortals grid"
  unfolding findPortals_with_def by (rule ext) (simp add: option.map_ident)

lemma solveMaze_with_DIRECTIONS: "solveMaze_with DIRECTIONS (\<lambda>ps. ps) grid K = solveMaze grid K"
  unfolding solveMaze_with_def solveMaze_def findPortals_with_id bfs_with_DIRECTIONS ..

lemma findPortals_with_sound:
  assumes "wf_grid grid" "rearranges order" "findPortals_with order grid c = Some pair" "d \<in> set pair"
  shows "\<exists>cl. cell_at grid (fst d) (snd d) = Some cl \<and> cell_type cl = Portal \<and> portalColor cl = Some c"
proof -
  from assms(3) obtain pair0 where p: "findPortals grid c = Some pair0" "pair = order pair0"
    unfolding findPortals_with_def by auto
  then have "d \<in> set pair0" using assms(2,4) by (simp add: rearranges_def)
  from findPortals_sound[OF assms(1) p(1) this] show ?thesis .
qed

lemma findPortals_with_complete:
  assumes "wf_grid grid" "rearranges order" "cell_at grid x y = Some cl" "cell_type cl = Portal"
    "portalColor cl = Some c"
  shows "\<exists>pair. findPortals_with order grid c = Some pair \<and> (x, y) \<in> set pair"
proof -
  from findPortals_complete[OF assms(1,3,4,5)] obtain pair0 where
    "findPortals grid c = Some pair0" "(x, y) \<in> set pair0" by blast
  then show ?thesis using assms(2) by (simp add: findPortals_with_def rearranges_def)
qed

lemma expand_with_spec:
  assumes wf: "wf_grid grid" and rows: "rows = int (length grid)" and cols: "cols = int (length (hd grid))"
    and cell: "cell_at grid (node_x cur) (node_y cur) = Some cell"
    and bK: "breaksUsed cur \<le> K"
    and dirs: "set dirs = set DIRECTIONS" and ord: "rearranges order"
  shows "\<exists>vq'. expand_with dirs grid rows cols K (findPortals_with order grid) cell cur vq = Inr vq' \<and>
               expanded grid K cur vq vq'"
proof -
  let ?tp = "try_teleport (findPortals_with order grid) cell cur vq"
  obtain vq' where vq': "try_moves grid rows cols K cur dirs ?tp = Inr vq'"
    using try_moves_no_crash[OF wf rows cols] by blast
  have 1: "pushed (child grid K cur) vq ?tp"
  proof (rule pushed_try_teleport)
    fix c pair d
    assume a: "cell_type cell = Portal" "portalColor cell = Some c"
      "findPortals_with order grid c = Some pair"
      "d \<in> set pair" "fst d \<noteq> node_x cur \<or> snd d \<noteq> node_y cur"
    from findPortals_with_sound[OF wf ord a(3,4)] obtain cl where
      cl: "cell_at grid (fst d) (snd d) = Some cl" "cell_type cl = Portal" "portalColor cl = Some c"
      by blast
    have "same_color_portals grid (node_x cur, node_y cur) (fst d, snd d)"
      unfolding same_color_portals_def using a(1,2,5) cl cell by auto
    then show "child grid K cur \<lparr>node_x = fst d, node_y = snd d, breaksUsed = breaksUsed cur,
        steps = steps cur + 1, path = path cur @ [(fst d, snd d)]\<rparr>"
      by (simp add: child_def legal_step_def visitKey_def)
  qed
  have 2: "pushed (child grid K cur) ?tp vq'"
  proof (rule pushed_try_moves[OF vq'])
    fix dir nb
    assume a: "dir \<in> set dirs" "0 \<le> node_x cur + fst dir" "node_x cur + fst dir < cols"
      "0 \<le> node_y cur + snd dir" "node_y cur + snd dir < rows"
      "cell_at grid (node_x cur + fst dir) (node_y cur + snd dir) = Some nb"
      "(if cell_type nb = Wall then breaksUsed cur + 1 else breaksUsed cur) \<le> K"
    have card: "cardinal_neighbor (node_x cur, node_y cur) (node_x cur + fst dir, node_y cur + snd dir)"
      using a(1) unfolding dirs by (auto simp: DIRECTIONS_def cardinal_neighbor_def)
    have ing: "in_grid grid (node_x cur + fst dir, node_y cur + snd dir)"
      using a(2-5) rows cols by (simp add: in_grid_def)
    have w: "is_wall grid (node_x cur + fst dir, node_y cur + snd dir) \<longleftrightarrow> cell_type nb = Wall"
      using a(6) by (simp add: is_wall_def)
    show "child grid K cur \<lparr>node_x = node_x cur + fst dir, node_y = node_y cur + snd dir,
              breaksUsed = (if cell_type nb = Wall then breaksUsed cur + 1 else breaksUsed cur),
              steps = steps cur + 1,
              path = path cur @ [(node_x cur + fst dir, node_y cur + snd dir)]\<rparr>"
      using card ing w a(7) by (auto simp: child_def legal_step_def visitKey_def split: if_splits)
  qed
  have 3: "k \<in> fst vq'" if k: "legal_step grid K (visitKey cur) k" for k
  proof -
    obtain x' y' b' where k_def: "k = (x', y', b')" by (cases k)
    from k consider
      (tele) "same_color_portals grid (node_x cur, node_y cur) (x', y')" "b' = breaksUsed cur"
      | (move) "cardinal_neighbor (node_x cur, node_y cur) (x', y')" "in_grid grid (x', y')"
          "if is_wall grid (x', y') then breaksUsed cur + 1 \<le> K \<and> b' = breaksUsed cur + 1
           else b' = breaksUsed cur"
      unfolding legal_step_def k_def visitKey_def by auto
    then show ?thesis
    proof cases
      case tele
      from tele(1) cell obtain cl c where
        ne: "(node_x cur, node_y cur) \<noteq> (x', y')" and
        cl: "cell_at grid x' y' = Some cl" "cell_type cl = Portal" "portalColor cl = Some c" and
        cc: "cell_type cell = Portal" "portalColor cell = Some c"
        unfolding same_color_portals_def by (auto split: option.splits)
      from findPortals_with_complete[OF wf ord cell cc] obtain pair where
        pair: "findPortals_with order grid c = Some pair" "(node_x cur, node_y cur) \<in> set pair" by blast
      from findPortals_with_complete[OF wf ord cl] pair(1) have d: "(x', y') \<in> set pair" by auto
      have "length pair > 1"
      proof (rule ccontr)
        assume "\<not> 1 < length pair"
        then have "length pair \<le> 1" by simp
        then have "card (set pair) \<le> 1" using card_length[of pair] by linarith
        moreover have "{(node_x cur, node_y cur), (x', y')} \<subseteq> set pair" using pair(2) d by simp
        then have "card {(node_x cur, node_y cur), (x', y')} \<le> card (set pair)"
          by (intro card_mono) simp_all
        ultimately show False using ne by simp
      qed
      then have tp: "?tp = fold (teleport cur) pair vq"
        unfolding try_teleport_def using cc pair(1) by simp
      have "(fst (x', y'), snd (x', y'), breaksUsed cur) \<in> fst ?tp"
        unfolding tp by (rule fold_teleport_complete[OF d]) (use ne in auto)
      then show ?thesis using try_moves_mono[OF vq'] k_def tele(2) by auto
    next
      case move
      define dir where "dir = (x' - node_x cur, y' - node_y cur)"
      have dir: "dir \<in> set dirs" using move(1)
        unfolding dirs dir_def DIRECTIONS_def cardinal_neighbor_def by auto
      have xy: "x' = node_x cur + fst dir" "y' = node_y cur + snd dir" by (simp_all add: dir_def)
      from cell_at_in_grid[OF wf move(2)] obtain nb where nb: "cell_at grid x' y' = Some nb" by blast
      have w: "is_wall grid (x', y') \<longleftrightarrow> cell_type nb = Wall" using nb by (simp add: is_wall_def)
      have le: "(if cell_type nb = Wall then breaksUsed cur + 1 else breaksUsed cur) \<le> K"
        using move(3) w bK by auto
      have b': "b' = (if cell_type nb = Wall then breaksUsed cur + 1 else breaksUsed cur)"
        using move(3) w by auto
      have bounds: "0 \<le> node_x cur + fst dir" "node_x cur + fst dir < cols"
        "0 \<le> node_y cur + snd dir" "node_y cur + snd dir < rows"
        using move(2) xy rows cols by (simp_all add: in_grid_def)
      from try_moves_complete[OF vq' dir bounds nb[unfolded xy] le]
      show ?thesis unfolding k_def b' xy .
    qed
  qed
  have "expanded grid K cur vq vq'"
    unfolding expanded_def using pushed_trans[OF 1 2] 3 by blast
  then show ?thesis using vq' by (auto simp: expand_with_def)
qed

lemma bfs_with_correct:
  assumes "wf_grid grid" "rows = int (length grid)" "cols = int (length (hd grid))"
    "portals = findPortals_with order grid" "in_grid grid start" "0 \<le> K"
    "bfs_inv grid K start goal V Q" "\<forall>n\<in>set Q. path_inv grid K start n"
    "set dirs = set DIRECTIONS" "rearranges order"
  shows "search_result_ok grid K start goal (bfs_with dirs grid rows cols K goal portals V Q)"
  using assms
proof (induction dirs grid rows cols K goal portals V Q rule: bfs_with.induct)
  case (1 dirs grid rows cols K goal portals V)
  show ?case unfolding search_result_ok_def using bfs_inv_empty[OF "1.prems"(7)] by auto
next
  case (2 dirs grid rows cols K goal portals V cur Q)
  note wf = "2.prems"(1) and rows = "2.prems"(2) and cols = "2.prems"(3)
    and portals = "2.prems"(4) and s = "2.prems"(5) and K = "2.prems"(6)
    and inv = "2.prems"(7) and pinv = "2.prems"(8) and dirs = "2.prems"(9) and ord = "2.prems"(10)
  have ncur: "node_inv grid K start V cur" using inv by (simp add: bfs_inv_def)
  have pcur: "path_inv grid K start cur" using pinv by simp
  from ncur have "reach grid K start (nat (steps cur)) (visitKey cur)" by (simp add: node_inv_def)
  from reach_bounds[OF wf s K this]
  have ing: "in_grid grid (node_x cur, node_y cur)" and bK: "breaksUsed cur \<le> K"
    by (simp_all add: key_pos_def visitKey_def)
  from cell_at_in_grid[OF wf ing] obtain cell where
    cell: "cell_at grid (node_x cur) (node_y cur) = Some cell" by blast
  show ?case
  proof (cases "node_x cur = fst goal \<and> node_y cur = snd goal")
    case True
    then have g: "(node_x cur, node_y cur) = goal" by (cases goal) simp
    have ap: "action_path grid K start goal (path cur)"
      using pcur g unfolding path_inv_def action_path_def by simp
    have len: "int (length (path cur)) = steps cur + 1" using pcur by (simp add: path_inv_def)
    have "steps cur \<le> int d" if "reach grid K start d k" "key_pos k = goal" for d k
      by (rule bfs_inv_found[OF inv that])
    then show ?thesis using True ap len unfolding search_result_ok_def by auto
  next
    case False
    then have ng: "key_pos (visitKey cur) \<noteq> goal"
      by (cases goal) (auto simp: key_pos_def visitKey_def)
    from expand_with_spec[OF wf rows cols cell bK dirs ord, of "(V, Q)"] obtain vq' where
      e: "expand_with dirs grid rows cols K (findPortals_with order grid) cell cur (V, Q) = Inr vq'"
      and ex: "expanded grid K cur (V, Q) vq'" by blast
    obtain V' Q' where vq': "vq' = (V', Q')" by (cases vq')
    have inv': "bfs_inv grid K start goal V' Q'"
      by (rule bfs_inv_step[OF inv ng ex[unfolded vq']])
    from ex[unfolded vq'] obtain new where new: "Q' = Q @ new"
      "\<And>n. n \<in> set new \<Longrightarrow> child grid K cur n"
      unfolding expanded_def by (auto elim: pushedE)
    have pinv': "\<forall>n\<in>set Q'. path_inv grid K start n"
      using pinv new path_inv_child[OF pcur] by auto
    have "search_result_ok grid K start goal (bfs_with dirs grid rows cols K goal portals V' Q')"
      by (rule "2.IH"[OF False cell e[folded portals, unfolded vq'] refl wf rows cols portals s K inv' pinv' dirs ord])
    moreover have "bfs_with dirs grid rows cols K goal portals V (cur # Q) =
        bfs_with dirs grid rows cols K goal portals V' Q'"
      by (subst bfs_with.simps(2), subst if_not_P[OF False]) (simp add: cell e[folded portals] vq')
    ultimately show ?thesis by simp
  qed
qed

lemma solveMaze_with_search:
  assumes wf: "wf_grid grid" and K: "0 \<le> K" and fe: "findEndpoints grid = (Some start, Some goal)"
    and dirs: "set dirs = set DIRECTIONS" and ord: "rearranges order"
  shows "search_result_ok grid K start goal (solveMaze_with dirs order grid K)"
proof -
  from findEndpoints_Some[OF wf fe] have s: "in_grid grid start" and ne: "grid \<noteq> []" by simp_all
  then obtain row0 rest where g: "grid = row0 # rest" by (cases grid) auto
  have eq: "solveMaze_with dirs order grid K =
      bfs_with dirs grid (int (length grid)) (int (length (hd grid))) K goal (findPortals_with order grid)
        {(fst start, snd start, 0)}
        [\<lparr>node_x = fst start, node_y = snd start, breaksUsed = 0, steps = 0,
          path = [(fst start, snd start)]\<rparr>]"
    unfolding solveMaze_with_def fe by (simp add: g)
  have pi: "\<forall>n\<in>set [\<lparr>node_x = fst start, node_y = snd start, breaksUsed = 0, steps = 0,
          path = [(fst start, snd start)]\<rparr>]. path_inv grid K start n"
    using path_inv_init[OF K, of grid start] by simp
  show ?thesis unfolding eq
    by (rule bfs_with_correct[OF wf refl refl refl s K bfs_inv_init pi dirs ord])
qed

lemma solveMaze_with_negative:
  assumes wf: "wf_grid g" and K: "K < 0"
  shows "solveMaze_with dirs order g K = Inr None"
proof (cases "findEndpoints g")
  case (Pair so go)
  show ?thesis
  proof (cases "\<exists>start goal. so = Some start \<and> go = Some goal")
    case False
    then show ?thesis unfolding solveMaze_with_def Pair by (auto split: option.splits)
  next
    case True
    then obtain start goal where fe: "findEndpoints g = (Some start, Some goal)" using Pair by auto
    from findEndpoints_Some[OF wf fe] have s: "is_start g start" and t: "is_goal g goal"
      and ne: "g \<noteq> []" by simp_all
    then obtain row0 rest where g: "g = row0 # rest" by (cases g) auto
    from s obtain c where c: "cell_at g (fst start) (snd start) = Some c" "cell_type c = Start"
      unfolding is_start_def by (auto split: option.splits)
    have neq: "\<not> (fst start = fst goal \<and> snd start = snd goal)"
    proof
      assume "fst start = fst goal \<and> snd start = snd goal"
      then have "is_goal g start" using t by (simp add: is_goal_def)
      then show False using c by (simp add: is_goal_def)
    qed
    let ?n0 = "\<lparr>node_x = fst start, node_y = snd start, breaksUsed = 0, steps = 0,
                 path = [(fst start, snd start)]\<rparr>"
    let ?V = "{(fst start, snd start, 0::int)}"
    have e: "expand_with dirs g (int (length g)) (int (length (hd g))) K (findPortals_with order g) c ?n0 (?V, []) =
               Inr (?V, [])"
      unfolding expand_with_def try_teleport_def using c(2)
      by (simp add: try_moves_negative[OF wf refl refl _ K])
    have "bfs_with dirs g (int (length g)) (int (length (hd g))) K goal (findPortals_with order g) ?V [?n0] = Inr None"
      using neq e by (simp add: c(1))
    then show ?thesis unfolding solveMaze_with_def fe by (simp add: g)
  qed
qed

lemma search_result_ok_same:
  assumes a: "search_result_ok grid K start goal r" and b: "search_result_ok grid K start goal r'"
  shows "minimumActions r = minimumActions r' \<and> reachable r = reachable r'"
proof -
  have none: "r2 = Inr None" if "search_result_ok grid K start goal r1"
    "search_result_ok grid K start goal r2" "r1 = Inr None" for r1 r2
  proof (rule ccontr)
    assume n: "r2 \<noteq> Inr None"
    from that(2) obtain s p where r2: "r2 = Inr (Some (s, p))"
      using n unfolding search_result_ok_def by (cases r2) (auto split: option.splits)
    then have "action_path grid K start goal p" using that(2) by (simp add: search_result_ok_def)
    from search_result_ok_paths[OF that(1) this] that(3) show False by simp
  qed
  have le: "s2 \<le> s1" if "search_result_ok grid K start goal r1"
    "search_result_ok grid K start goal r2" "r1 = Inr (Some (s1, p1))" "r2 = Inr (Some (s2, p2))"
    for r1 r2 s1 s2 p1 p2
  proof -
    from that(1,3) have "action_path grid K start goal p1" "int (length p1) = s1 + 1"
      by (simp_all add: search_result_ok_def)
    from search_result_ok_paths[OF that(2) this(1)] this(2) that(4) show ?thesis by simp
  qed
  show ?thesis
  proof (cases r)
    case (Inl e)
    then show ?thesis using a by (simp add: search_result_ok_def)
  next
    case (Inr o1)
    show ?thesis
    proof (cases o1)
      case None
      then have "r' = Inr None" using none[OF a b] Inr by simp
      then show ?thesis using Inr None by simp
    next
      case (Some sp)
      obtain s p where sp: "sp = (s, p)" by (cases sp)
      have r: "r = Inr (Some (s, p))" using Inr Some sp by simp
      have "r' \<noteq> Inr None" using none[OF b a] r by auto
      then obtain s' p' where r': "r' = Inr (Some (s', p'))"
        using b unfolding search_result_ok_def by (cases r') (auto split: option.splits)
      from le[OF a b r r'] le[OF b a r' r] have "s = s'" by simp
      then show ?thesis using r r' by (simp add: minimumActions_def reachable_def)
    qed
  qed
qed

section \<open>The claims\<close>


lemma solveMaze_Some_endpoints:
  assumes "solveMaze grid K = Inr (Some sp)"
  shows "\<exists>start goal. findEndpoints grid = (Some start, Some goal)"
  using assms unfolding solveMaze_def by (auto split: prod.splits option.splits)

lemma action_path_sequence:
  assumes wf: "wf_grid grid" and fe: "findEndpoints grid = (Some start, Some goal)"
    and ap: "action_path grid K start goal ps"
  shows "action_sequence grid K ps"
  using ap findEndpoints_Some(1,2)[OF wf fe] unfolding action_path_def action_sequence_def by simp

text \<open>
  Claim C1. On a well-formed grid with exactly one start cell and exactly one goal cell and a
  budget \<open>K \<ge> 0\<close>: if some action sequence leads from the start to the goal entering at
  most \<open>K\<close> walls, \<open>solveMaze\<close> reports the goal reachable and its step count is the
  number of actions of a shortest such sequence; if there is none it returns \<open>null\<close>.
\<close>

theorem solveMaze_optimal:
  assumes "wf_grid grid" "length (start_cells grid) = 1" "length (goal_cells grid) = 1" "0 \<le> K"
  shows "if (\<exists>ps. action_sequence grid K ps)
         then reachable (solveMaze grid K) \<and>
              (\<exists>s. minimumActions (solveMaze grid K) = Some s \<and>
                   (\<exists>ps. action_sequence grid K ps \<and> int (length ps) = s + 1) \<and>
                   (\<forall>ps. action_sequence grid K ps \<longrightarrow> s + 1 \<le> int (length ps)))
         else solveMaze grid K = Inr None"
proof -
  from assms(2,3) have "start_cells grid \<noteq> []" "goal_cells grid \<noteq> []" by auto
  then obtain start goal where fe: "findEndpoints grid = (Some start, Some goal)"
    unfolding findEndpoints_eq by auto
  have st: "\<And>p. is_start grid p \<longleftrightarrow> p = start"
    by (rule single_start[OF assms(1,2)]) (simp add: fe)
  have go: "\<And>p. is_goal grid p \<longleftrightarrow> p = goal"
    by (rule single_goal[OF assms(1,3)]) (simp add: fe)
  have seq: "\<And>ps. action_sequence grid K ps \<longleftrightarrow> action_path grid K start goal ps"
    unfolding action_sequence_def action_path_def st go by auto
  have ok: "search_result_ok grid K start goal (solveMaze grid K)"
    by (rule solveMaze_search[OF assms(1,4) fe])
  show ?thesis
  proof (cases "\<exists>ps. action_sequence grid K ps")
    case True
    then obtain ps0 where ps0: "action_path grid K start goal ps0" unfolding seq by blast
    from search_result_ok_paths[OF ok ps0] obtain s p where
      r: "solveMaze grid K = Inr (Some (s, p))" by blast
    have p: "action_path grid K start goal p" "int (length p) = s + 1"
      using ok unfolding search_result_ok_def r by simp_all
    have "s + 1 \<le> int (length ps)" if "action_sequence grid K ps" for ps
      using search_result_ok_paths[OF ok that[unfolded seq]] r by simp
    then show ?thesis using True r p unfolding seq
      by (auto simp: reachable_def minimumActions_def)
  next
    case False
    have "solveMaze grid K = Inr None"
    proof (cases "solveMaze grid K")
      case (Inl e)
      then show ?thesis using ok by (simp add: search_result_ok_def)
    next
      case (Inr o1)
      show ?thesis
      proof (cases o1)
        case None
        then show ?thesis using Inr by simp
      next
        case (Some sp)
        then have "action_path grid K start goal (snd sp)"
          using ok Inr unfolding search_result_ok_def by (cases sp) simp
        then show ?thesis using False unfolding seq by blast
      qed
    qed
    then show ?thesis using False by simp
  qed
qed

lemma g3_eval: "solveMaze portal_grid 0 = Inr (Some (3, [(0, 0), (1, 0), (3, 1), (3, 0)]))"
  by code_simp

theorem solveMaze_optimal_witness:
  "wf_grid portal_grid \<and> length (start_cells portal_grid) = 1 \<and> length (goal_cells portal_grid) = 1 \<and> (0::int) \<le> 0 \<and>
   reachable (solveMaze portal_grid 0) \<and> minimumActions (solveMaze portal_grid 0) = Some 3 \<and>
   \<not> (\<exists>ps. action_sequence portal_grid 0 ps \<and> int (length ps) < 4)"
proof -
  have h1: "wf_grid portal_grid" by code_simp
  have h2: "length (start_cells portal_grid) = 1" by code_simp
  have h3: "length (goal_cells portal_grid) = 1" by code_simp
  have h4: "(0::int) \<le> 0" by simp
  show ?thesis
    using solveMaze_optimal[OF h1 h2 h3 h4] h1 h2 h3 g3_eval
    by (fastforce simp: reachable_def minimumActions_def split: if_splits)
qed

text \<open>
  Claim C3. On a well-formed grid and for budgets \<open>0 \<le> K \<le> K'\<close>: when \<open>solveMaze\<close>
  reaches the goal with budget \<open>K\<close>, it reaches it with budget \<open>K'\<close> as well, in at most
  as many steps.
\<close>

theorem minimumActions_monotone:
  assumes "wf_grid grid" "0 \<le> K" "K \<le> K'" "reachable (solveMaze grid K)"
  shows "reachable (solveMaze grid K') \<and>
         (\<exists>s s'. minimumActions (solveMaze grid K) = Some s \<and>
                  minimumActions (solveMaze grid K') = Some s' \<and> s' \<le> s)"
proof -
  from assms(4) obtain s p where r: "solveMaze grid K = Inr (Some (s, p))"
    unfolding reachable_def by (auto split: sum.splits option.splits)
  from solveMaze_Some_endpoints[OF r] obtain start goal where
    fe: "findEndpoints grid = (Some start, Some goal)" by blast
  from solveMaze_search[OF assms(1,2) fe]
  have p: "action_path grid K start goal p" "int (length p) = s + 1"
    unfolding search_result_ok_def r by simp_all
  have p': "action_path grid K' start goal p"
    using p(1) assms(3) unfolding action_path_def by auto
  have K': "0 \<le> K'" using assms(2,3) by simp
  from search_result_ok_paths[OF solveMaze_search[OF assms(1) K' fe] p']
  obtain s' q where "solveMaze grid K' = Inr (Some (s', q))" "s' + 1 \<le> int (length p)" by blast
  then show ?thesis using r p(2) by (simp add: reachable_def minimumActions_def)
qed

theorem minimumActions_monotone_witness:
  "wf_grid detour_grid \<and> (0::int) \<le> 0 \<and> (0::int) \<le> 1 \<and> reachable (solveMaze detour_grid 0) \<and>
   reachable (solveMaze detour_grid 1) \<and> minimumActions (solveMaze detour_grid 0) = Some 4 \<and>
   minimumActions (solveMaze detour_grid 1) = Some 2"
proof -
  have h1: "wf_grid detour_grid" by code_simp
  have h4: "reachable (solveMaze detour_grid 0)" by code_simp
  have e0: "minimumActions (solveMaze detour_grid 0) = Some 4" by code_simp
  have e1: "minimumActions (solveMaze detour_grid 1) = Some 2" by code_simp
  show ?thesis
    using minimumActions_monotone[OF h1 _ _ h4, of 1] h1 h4 e0 e1 by simp
qed

text \<open>
  Claim C4. One iteration of the loop body, started with an empty frontier on a dequeued
  node at \<open>(x, y, b)\<close> inside a well-formed grid with \<open>b \<le> K\<close>, does not throw and pushes
  exactly the states that \<open>legal_step\<close> relates to \<open>(x, y, b)\<close>: the other portals of the
  cell's colour at break count \<open>b\<close>, the cardinal neighbours inside the grid at \<open>b\<close> when
  they are no wall and at \<open>b + 1\<close>, within the budget, when they are. Every pushed node has
  one step more than the dequeued one.
\<close>

theorem expand_is_legal_step:
  assumes "wf_grid grid" "cell_at grid (node_x cur) (node_y cur) = Some cell" "breaksUsed cur \<le> K"
  shows "\<exists>V' Q'. expand grid (int (length grid)) (int (length (hd grid))) K (findPortals grid)
                    cell cur ({}, []) = Inr (V', Q') \<and>
                 V' = {k. legal_step grid K (visitKey cur) k} \<and>
                 visitKey ` set Q' = {k. legal_step grid K (visitKey cur) k} \<and>
                 (\<forall>n\<in>set Q'. steps n = steps cur + 1)"
proof -
  from expand_spec[OF assms(1) refl refl assms(2,3), of "({}, [])"] obtain vq' where
    e: "expand grid (int (length grid)) (int (length (hd grid))) K (findPortals grid)
          cell cur ({}, []) = Inr vq'"
    and ex: "expanded grid K cur ({}, []) vq'" by blast
  obtain V' Q' where vq': "vq' = (V', Q')" by (cases vq')
  from ex[unfolded vq' expanded_def] obtain new where new: "Q' = new" "V' = visitKey ` set new"
    "\<And>n. n \<in> set new \<Longrightarrow> child grid K cur n"
    and all: "\<forall>k. legal_step grid K (visitKey cur) k \<longrightarrow> k \<in> V'"
    by (auto elim!: pushedE)
  have "V' = {k. legal_step grid K (visitKey cur) k}"
    using new(2,3) all unfolding child_def by blast
  moreover have "\<forall>n\<in>set Q'. steps n = steps cur + 1" using new(1,3) unfolding child_def by simp
  ultimately show ?thesis using e vq' new(1,2) by simp
qed

theorem expand_is_legal_step_witness:
  "wf_grid portal_grid \<and> cell_at portal_grid 1 0 = Some (mk_portal 1 0 Blue) \<and> (0::int) \<le> 0 \<and>
   {k. legal_step portal_grid 0 (1, 0, 0) k} = {(3, 1, 0), (0, 0, 0)}"
proof -
  let ?cur = "\<lparr>node_x = 1, node_y = 0, breaksUsed = 0, steps = 1, path = [(0, 0), (1, 0)]\<rparr>"
  have h1: "wf_grid portal_grid" by code_simp
  have h2: "cell_at portal_grid (node_x ?cur) (node_y ?cur) = Some (mk_portal 1 0 Blue)" by code_simp
  have h3: "breaksUsed ?cur \<le> 0" by simp
  have ev: "fst (projr (expand portal_grid (int (length portal_grid)) (int (length (hd portal_grid))) 0 (findPortals portal_grid)
                    (mk_portal 1 0 Blue) ?cur ({}, []))) = {(3, 1, 0), (0, 0, 0)}"
    by code_simp
  from expand_is_legal_step[OF h1 h2 h3] obtain V' Q' where
    e: "expand portal_grid (int (length portal_grid)) (int (length (hd portal_grid))) 0 (findPortals portal_grid)
          (mk_portal 1 0 Blue) ?cur ({}, []) = Inr (V', Q')"
    and V': "V' = {k. legal_step portal_grid 0 (visitKey ?cur) k}" by blast
  from ev have "V' = {(3, 1, 0), (0, 0, 0)}" unfolding e by simp
  with V' have "{k. legal_step portal_grid 0 (1, 0, 0) k} = {(3, 1, 0), (0, 0, 0)}"
    by (simp add: visitKey_def)
  then show ?thesis using h1 h2 by simp
qed



text \<open>
  Claim C6, as amended. When the grid has no start cell or no goal cell, \<open>solveMaze\<close>
  returns \<open>null\<close> at once: no node is ever pushed. The value is the same \<open>null\<close> that an
  exhausted search returns; nothing in the result tells the two apart.
\<close>

theorem solveMaze_missing_endpoint:
  assumes "start_cells grid = [] \<or> goal_cells grid = []"
  shows "solveMaze grid K = Inr None \<and> solveMaze_enqueued grid K = []"
  using assms solveMaze_missing[OF assms]
  unfolding solveMaze_enqueued_def findEndpoints_eq by auto

theorem solveMaze_missing_endpoint_witness:
  "goal_cells no_goal_grid = [] \<and> solveMaze no_goal_grid 1 = Inr None \<and>
   solveMaze_enqueued no_goal_grid 1 = []"
proof -
  have h: "start_cells no_goal_grid = [] \<or> goal_cells no_goal_grid = []" by code_simp
  have g: "goal_cells no_goal_grid = []" by code_simp
  show ?thesis using solveMaze_missing_endpoint[OF h, of 1] g by simp
qed

text \<open>
  The claim as stated fails: a grid without a goal and a grid whose goal is walled off both
  yield \<open>Inr None\<close>.
\<close>

theorem missing_endpoint_indistinguishable:
  "goal_cells no_goal_grid = [] \<and>
   length (start_cells blocked_grid) = 1 \<and> length (goal_cells blocked_grid) = 1 \<and>
   solveMaze no_goal_grid 0 = Inr None \<and> solveMaze blocked_grid 0 = Inr None \<and>
   solveMaze no_goal_grid 0 = solveMaze blocked_grid 0"
  by code_simp

text \<open>
  Claim C8. With \<open>K \<ge> 0\<close>, on any grid, every node pushed during a run has
  \<open>0 \<le> breaksUsed \<le> K\<close>, also in a run that ends by throwing; and every node pushed by
  one iteration of the loop body, whether or not the body throws afterwards, carries the
  break count of the dequeued node or that count plus one. The frontier the statement
  speaks of is the one \<open>expand\<close> returns whenever it returns.
\<close>

theorem breaksUsed_within_budget:
  assumes "0 \<le> K"
  shows "(\<forall>n\<in>set (solveMaze_enqueued grid K). 0 \<le> breaksUsed n \<and> breaksUsed n \<le> K) \<and>
         (\<forall>n\<in>set (drop (length Q) (snd (expand_frontier grid' rows cols K portals cell cur (V, Q)))).
            breaksUsed n = breaksUsed cur \<or> breaksUsed n = breaksUsed cur + 1) \<and>
         (expand grid' rows cols K portals cell cur (V, Q) = Inr vq' \<longrightarrow>
            expand_frontier grid' rows cols K portals cell cur (V, Q) = vq')"
  using solveMaze_enqueued_props(2)[OF assms, of grid] frontier_breaks_step expand_frontier_eq
  unfolding within_budget_def by blast

theorem breaksUsed_within_budget_witness:
  "(0::int) \<le> 1 \<and>
   map breaksUsed (solveMaze_enqueued portal_grid 1) = [0, 0, 0, 0, 1, 1, 0, 1, 1, 1, 1] \<and>
   solveMaze ragged_grid 1 = Inl TypeError \<and>
   map visitKey (solveMaze_enqueued ragged_grid 1) =
     [(0, 0, 0), (1, 0, 0), (0, 1, 1), (2, 0, 0), (1, 1, 0), (0, 0, 1), (1, 1, 1)]"
proof -
  have h: "(0::int) \<le> 1" by simp
  have e: "map breaksUsed (solveMaze_enqueued portal_grid 1) = [0, 0, 0, 0, 1, 1, 0, 1, 1, 1, 1]"
    by code_simp
  have r: "solveMaze ragged_grid 1 = Inl TypeError" by code_simp
  have t: "map visitKey (solveMaze_enqueued ragged_grid 1) =
     [(0, 0, 0), (1, 0, 0), (0, 1, 1), (2, 0, 0), (1, 1, 0), (0, 0, 1), (1, 1, 1)]"
    by code_simp
  show ?thesis using breaksUsed_within_budget[OF h, of portal_grid] e r t by simp
qed

text \<open>
  Claim C9. The reachable flag and the minimum number of actions that \<open>solveMaze\<close> returns
  do not depend on how ties are broken. On a well-formed grid and for any budget, the search
  run with the four directions in any order and with every portal list rearranged in any
  way returns the same reachable flag and the same count as \<open>solveMaze\<close>; only the returned
  path may differ. Run with \<open>DIRECTIONS\<close> and the portal lists as \<open>findPortals\<close> builds
  them, that search is \<open>solveMaze\<close>.
\<close>

theorem solveMaze_deterministic:
  assumes "wf_grid grid" "set dirs = set DIRECTIONS" "rearranges order"
  shows "solveMaze_with DIRECTIONS (\<lambda>ps. ps) grid K = solveMaze grid K \<and>
         minimumActions (solveMaze_with dirs order grid K) = minimumActions (solveMaze grid K) \<and>
         reachable (solveMaze_with dirs order grid K) = reachable (solveMaze grid K)"
proof -
  have "minimumActions (solveMaze_with dirs order grid K) = minimumActions (solveMaze grid K) \<and>
        reachable (solveMaze_with dirs order grid K) = reachable (solveMaze grid K)"
  proof (cases "0 \<le> K")
    case False
    then have K: "K < 0" by simp
    show ?thesis
      unfolding solveMaze_with_negative[OF assms(1) K] solveMaze_negative[OF assms(1) K] by simp
  next
    case True
    show ?thesis
    proof (cases "findEndpoints grid")
      case (Pair so go)
      show ?thesis
      proof (cases "\<exists>start goal. so = Some start \<and> go = Some goal")
        case False
        then have "solveMaze_with dirs order grid K = Inr None" "solveMaze grid K = Inr None"
          unfolding solveMaze_with_def solveMaze_def Pair by (auto split: option.splits)
        then show ?thesis by simp
      next
        case ex: True
        then obtain start goal where fe: "findEndpoints grid = (Some start, Some goal)"
          using Pair by auto
        show ?thesis
          by (rule search_result_ok_same[OF solveMaze_with_search[OF assms(1) True fe assms(2,3)]
                solveMaze_search[OF assms(1) True fe]])
      qed
    qed
  qed
  then show ?thesis by (simp add: solveMaze_with_DIRECTIONS)
qed

theorem solveMaze_deterministic_witness:
  "wf_grid square_grid \<and> set (rev DIRECTIONS) = set DIRECTIONS \<and> rearranges rev \<and>
   solveMaze square_grid 0 = Inr (Some (2, [(0, 0), (1, 0), (1, 1)])) \<and>
   solveMaze_with (rev DIRECTIONS) rev square_grid 0 = Inr (Some (2, [(0, 0), (0, 1), (1, 1)])) \<and>
   minimumActions (solveMaze_with (rev DIRECTIONS) rev square_grid 0) =
     minimumActions (solveMaze square_grid 0) \<and>
   reachable (solveMaze_with (rev DIRECTIONS) rev square_grid 0) =
     reachable (solveMaze square_grid 0)"
proof -
  have h1: "wf_grid square_grid" by code_simp
  have h2: "set (rev DIRECTIONS) = set DIRECTIONS" by simp
  have h3: "rearranges rev" by (simp add: rearranges_def)
  have e1: "solveMaze square_grid 0 = Inr (Some (2, [(0, 0), (1, 0), (1, 1)]))" by code_simp
  have e2: "solveMaze_with (rev DIRECTIONS) rev square_grid 0 =
      Inr (Some (2, [(0, 0), (0, 1), (1, 1)]))" by code_simp
  from solveMaze_deterministic[OF h1 h2 h3, of 0] have
    "minimumActions (solveMaze_with (rev DIRECTIONS) rev square_grid 0) =
       minimumActions (solveMaze square_grid 0)"
    "reachable (solveMaze_with (rev DIRECTIONS) rev square_grid 0) =
       reachable (solveMaze square_grid 0)"
    by simp_all
  with h1 h2 h3 e1 e2 show ?thesis by (simp only: simp_thms)
qed

text \<open>
  Claim C10. A path returned on a well-formed grid with \<open>K \<ge> 0\<close> has \<open>steps + 1\<close>
  positions, begins on the start cell, ends on the goal cell, moves by one legal action at a
  time (a cardinal move inside the grid or a teleport between portals of one colour) and
  enters at most \<open>K\<close> walls.
\<close>

theorem solveMaze_path_valid:
  assumes "wf_grid grid" "0 \<le> K" "solveMaze grid K = Inr (Some (s, p))"
  shows "int (length p) = s + 1 \<and> is_start grid (hd p) \<and> is_goal grid (last p) \<and>
         steps_legal grid p \<and> wall_entries grid p \<le> K"
proof -
  from solveMaze_Some_endpoints[OF assms(3)] obtain start goal where
    fe: "findEndpoints grid = (Some start, Some goal)" by blast
  from solveMaze_search[OF assms(1,2) fe]
  have p: "action_path grid K start goal p" "int (length p) = s + 1"
    unfolding search_result_ok_def assms(3) by simp_all
  from action_path_sequence[OF assms(1) fe p(1)] p(2)
  show ?thesis unfolding action_sequence_def by simp
qed

theorem solveMaze_path_valid_witness:
  "wf_grid portal_grid \<and> (0::int) \<le> 0 \<and>
   solveMaze portal_grid 0 = Inr (Some (3, [(0, 0), (1, 0), (3, 1), (3, 0)])) \<and>
   steps_legal portal_grid [(0, 0), (1, 0), (3, 1), (3, 0)] \<and>
   wall_entries portal_grid [(0, 0), (1, 0), (3, 1), (3, 0)] \<le> 0"
proof -
  have h1: "wf_grid portal_grid" by code_simp
  have h2: "(0::int) \<le> 0" by simp
  show ?thesis using solveMaze_path_valid[OF h1 h2 g3_eval] h1 g3_eval by simp
qed

text \<open>
  Claim C2. For every budget \<open>0 \<le> K \<le> 5\<close> and every outcome of the randomness whose
  shuffles rearrange their argument, \<open>generateRandomLevel\<close> returns a level (it does not
  throw) whose grid has exactly one start cell and exactly one goal cell, on which
  \<open>solveMaze\<close> reports the goal reachable with budget 0 and with budget \<open>K\<close>, and whose two
  stored counts are the step counts of these two runs. For such a budget the first attempt
  already validates, so the fallback is never the return path.
\<close>

theorem generateRandomLevel_valid:
  assumes "0 \<le> K" "K \<le> 5" "\<forall>k. rearranges (shuffle (rnd k))"
  shows "\<exists>level. generateRandomLevel rnd K = Inr level \<and>
           length (start_cells (level_grid level)) = 1 \<and>
           length (goal_cells (level_grid level)) = 1 \<and>
           reachable (solveMaze (level_grid level) 0) \<and>
           reachable (solveMaze (level_grid level) K) \<and>
           optimalStepsNoBreak level = minimumActions (solveMaze (level_grid level) 0) \<and>
           optimalStepsWithBreak level = minimumActions (solveMaze (level_grid level) K)"
proof -
  from assms(3) have sh: "rearranges (shuffle (rnd 0))" by simp
  from attempt_succeeds[where rnd=rnd and n=0 and grid="[]", OF assms(1) sh] obtain level sa pa sb pb where
    l: "attempt_loop rnd K 0 [] = Inr level" "maze_ok (level_grid level)"
    "solveMaze (level_grid level) 0 = Inr (Some (sa, pa))"
    "solveMaze (level_grid level) K = Inr (Some (sb, pb))"
    "optimalStepsNoBreak level = Some sa" "optimalStepsWithBreak level = Some sb"
    by auto
  show ?thesis
    unfolding generateRandomLevel_def
    using l by (auto simp: maze_ok_def reachable_def minimumActions_def)
qed

lemma const_random_rearranges: "rearranges (shuffle (const_random k))"
  by (simp add: rearranges_def const_random_def)

lemma const_random_level:
  "map_sum id (\<lambda>l. (level_name l, optimalStepsNoBreak l, optimalStepsWithBreak l))
     (generateRandomLevel const_random 1) = Inr (''Random Sector 550'', Some 30, Some 18)"
  by code_simp

theorem generateRandomLevel_valid_witness:
  "(0::int) \<le> 1 \<and> (1::int) \<le> 5 \<and> (\<forall>k. rearranges (shuffle (const_random k))) \<and>
   (\<exists>level. generateRandomLevel const_random 1 = Inr level \<and>
      level_name level = ''Random Sector 550'' \<and>
      length (start_cells (level_grid level)) = 1 \<and>
      length (goal_cells (level_grid level)) = 1 \<and>
      optimalStepsNoBreak level = Some 30 \<and> optimalStepsWithBreak level = Some 18 \<and>
      minimumActions (solveMaze (level_grid level) 0) = Some 30 \<and>
      minimumActions (solveMaze (level_grid level) 1) = Some 18)"
proof -
  have h: "\<forall>k. rearranges (shuffle (const_random k))" by (simp add: const_random_rearranges)
  from generateRandomLevel_valid[of 1 const_random, OF _ _ h] obtain level where
    l: "generateRandomLevel const_random 1 = Inr level"
    "length (start_cells (level_grid level)) = 1" "length (goal_cells (level_grid level)) = 1"
    "optimalStepsNoBreak level = minimumActions (solveMaze (level_grid level) 0)"
    "optimalStepsWithBreak level = minimumActions (solveMaze (level_grid level) 1)"
    by auto
  from const_random_level have "level_name level = ''Random Sector 550''"
    "optimalStepsNoBreak level = Some 30" "optimalStepsWithBreak level = Some 18"
    unfolding l(1) by simp_all
  with l h show ?thesis by simp
qed

text \<open>
  Claim C7 does not hold of the code. Every attempt fails only when the budget is negative;
  the level then returned is named \<open>Fallback Level\<close>, its grid is the 10 by 10 grid of the
  last attempt with three cells overwritten, and both stored counts are 2, while
  \<open>solveMaze\<close> on that grid with that budget returns \<open>null\<close>.
\<close>

theorem fallback_counts_disagree:
  assumes "K < 0" "\<forall>k. rearranges (shuffle (rnd k))"
  shows "\<exists>level. generateRandomLevel rnd K = Inr level \<and>
           level_name level = ''Fallback Level'' \<and>
           length (level_grid level) = 10 \<and> length (hd (level_grid level)) = 10 \<and>
           optimalStepsNoBreak level = Some 2 \<and> optimalStepsWithBreak level = Some 2 \<and>
           solveMaze (level_grid level) K = Inr None"
proof -
  from attempts_fail_negative[OF assms, of 0 "[]"] obtain level where
    l: "attempt_loop rnd K 0 [] = Inr level" "gen_grid (level_grid level)"
    "level_name level = ''Fallback Level''" "optimalStepsNoBreak level = Some 2"
    "optimalStepsWithBreak level = Some 2" by auto
  from gen_grid_wf[OF l(2)] solveMaze_negative[OF _ assms(1)] l
  show ?thesis unfolding generateRandomLevel_def by auto
qed

lemma const_fallback_eval:
  "minimumActions (solveMaze (projr (fallback_patch (projr (build_maze (const_random 19))))) 0) = Some 30 \<and>
   length (goal_cells (projr (fallback_patch (projr (build_maze (const_random 19)))))) = 2"
  by code_simp

text \<open>
  With \<open>Math.random()\<close> constantly \<open>0.5\<close> and budget \<open>-1\<close> the returned grid still holds
  the goal cell of the last attempt beside the new one, and the solver's count without
  breaks is 30, not the stored 2.
\<close>

theorem fallback_counts_disagree_witness:
  "(-1::int) < 0 \<and> (\<forall>k. rearranges (shuffle (const_random k))) \<and>
   (\<exists>level. generateRandomLevel const_random (-1) = Inr level \<and>
      level_name level = ''Fallback Level'' \<and> length (level_grid level) = 10 \<and>
      optimalStepsNoBreak level = Some 2 \<and> optimalStepsWithBreak level = Some 2 \<and>
      solveMaze (level_grid level) (-1) = Inr None \<and>
      minimumActions (solveMaze (level_grid level) 0) = Some 30 \<and>
      length (goal_cells (level_grid level)) = 2)"
proof -
  have h1: "(-1::int) < 0" by simp
  have h2: "\<forall>k. rearranges (shuffle (const_random k))" by (simp add: const_random_rearranges)
  from fallback_counts_disagree[OF h1 h2] obtain level where
    l: "generateRandomLevel const_random (-1) = Inr level" "level_name level = ''Fallback Level''"
    "length (level_grid level) = 10" "optimalStepsNoBreak level = Some 2"
    "optimalStepsWithBreak level = Some 2" "solveMaze (level_grid level) (-1) = Inr None"
    by blast
  have "fallback_patch (projr (build_maze (const_random 19))) = Inr (level_grid level)"
    by (rule attempts_fail_grid[OF h1 h2, of 0 "[]"]) (use l(1) in \<open>simp_all add: generateRandomLevel_def\<close>)
  then have "projr (fallback_patch (projr (build_maze (const_random 19)))) = level_grid level"
    by simp
  with const_fallback_eval have
    "minimumActions (solveMaze (level_grid level) 0) = Some 30 \<and> length (goal_cells (level_grid level)) = 2"
    by simp
  with l h2 show ?thesis by simp
qed

end
